theory Spec2Isabelle
  imports Complex_Main "HOL-Library.Multiset"
begin

section \<open>Text: characters, lines, trimming\<close>

text \<open>
  A Python \<open>str\<close> is modelled as a \<open>string\<close>; a \<open>char\<close> stands for the code point
  with the same number, so the model covers text whose code points are below 256.
  The classifications below are those of Python 3 on that range.
\<close>

definition code :: "char \<Rightarrow> nat" where
  "code c = of_char c"

text \<open>\<open>str.isspace\<close> on one character; the same set is the regular-expression class \<open>\s\<close>.\<close>

definition is_space :: "char \<Rightarrow> bool" where
  "is_space c = (code c \<in> set [9, 10, 11, 12, 13, 28, 29, 30, 31, 32, 133, 160])"

text \<open>The regular-expression class \<open>\w\<close>: alphanumeric characters and the underscore.\<close>

definition is_word :: "char \<Rightarrow> bool" where
  "is_word c = (let n = code c in
     (48 \<le> n \<and> n \<le> 57) \<or> (65 \<le> n \<and> n \<le> 90) \<or> n = 95 \<or> (97 \<le> n \<and> n \<le> 122) \<or>
     n = 170 \<or> n = 178 \<or> n = 179 \<or> n = 181 \<or> n = 185 \<or> n = 186 \<or>
     (188 \<le> n \<and> n \<le> 190) \<or> (192 \<le> n \<and> n \<le> 214) \<or> (216 \<le> n \<and> n \<le> 246) \<or>
     248 \<le> n)"

text \<open>
  Case folding as \<open>re.IGNORECASE\<close> applies it to the literals of the rule tables, which
  are all ASCII: an ASCII letter matches its two cases and nothing else.
\<close>

definition lower_char :: "char \<Rightarrow> char" where
  "lower_char c =
     (case map_of (zip ''ABCDEFGHIJKLMNOPQRSTUVWXYZ'' ''abcdefghijklmnopqrstuvwxyz'') c of
        Some l \<Rightarrow> l
      | None \<Rightarrow> c)"

text \<open>\<open>str.strip()\<close>: whitespace is removed at both ends.\<close>

definition strip :: "string \<Rightarrow> string" where
  "strip s = rev (dropWhile is_space (rev (dropWhile is_space s)))"

text \<open>\<open>str.startswith\<close>.\<close>

fun startswith :: "string \<Rightarrow> string \<Rightarrow> bool" where
  "startswith s [] = True"
| "startswith [] (p # ps) = False"
| "startswith (c # cs) (p # ps) = (c = p \<and> startswith cs ps)"

text \<open>The suffixes of a string, longest first: the positions a search tries, left to right.\<close>

fun tails :: "string \<Rightarrow> string list" where
  "tails [] = [[]]"
| "tails (c # cs) = (c # cs) # tails cs"

text \<open>Python's \<open>sub in s\<close> on strings.\<close>

definition contains :: "string \<Rightarrow> string \<Rightarrow> bool" where
  "contains s sub = list_ex (\<lambda>t. startswith t sub) (tails s)"

text \<open>\<open>s.split('\n')\<close>: never empty; a trailing newline gives a last empty line.\<close>

fun split_lines :: "string \<Rightarrow> string list" where
  "split_lines [] = [[]]"
| "split_lines (c # cs) =
     (if c = CHR 0x0A then [] # split_lines cs
      else (case split_lines cs of
              [] \<Rightarrow> [[c]]
            | l # ls \<Rightarrow> (c # l) # ls))"

text \<open>\<open>'\n'.join(lines)\<close>.\<close>

fun join_lines :: "string list \<Rightarrow> string" where
  "join_lines [] = []"
| "join_lines [l] = l"
| "join_lines (l # m # ls) = l @ CHR 0x0A # join_lines (m # ls)"

section \<open>Regular expressions\<close>

text \<open>
  The patterns of the two rule tables are written in the syntax of Python's \<open>re\<close> module.
  They are represented by their syntax trees; every quantifier \<open>*\<close> and \<open>+\<close> of the
  tables applies to a single character class. The matcher is the backtracking matcher
  of \<open>re\<close>: it returns every way to match at the start of the text, in the order in
  which \<open>re\<close> tries them (alternatives left to right, quantifiers greedy), each with the
  rest of the text and the captured groups.
\<close>

datatype cclass =
    Lit char              \<comment> \<open>one literal character\<close>
  | AnyOf "char list"     \<comment> \<open>\<open>[abc]\<close>\<close>
  | NoneOf "char list"    \<comment> \<open>\<open>[^abc]\<close>\<close>
  | Digit09               \<comment> \<open>\<open>[0-9]\<close>\<close>
  | Word                  \<comment> \<open>\<open>\w\<close>\<close>
  | Space                 \<comment> \<open>\<open>\s\<close>\<close>
  | Dot                   \<comment> \<open>\<open>.\<close>: any character but the newline\<close>

datatype regex =
    Eps
  | Atom cclass
  | Seq regex regex
  | Alt regex regex
  | Star cclass
  | Plus cclass
  | Opt regex
  | Group nat regex

text \<open>Whether a class accepts a character; \<open>ic\<close> is the flag \<open>re.IGNORECASE\<close>.\<close>

fun cmatch :: "bool \<Rightarrow> cclass \<Rightarrow> char \<Rightarrow> bool" where
  "cmatch ic (Lit x) c = (if ic then lower_char c = lower_char x else c = x)"
| "cmatch ic (AnyOf xs) c =
     (if ic then lower_char c \<in> set (map lower_char xs) else c \<in> set xs)"
| "cmatch ic (NoneOf xs) c =
     (if ic then lower_char c \<notin> set (map lower_char xs) else c \<notin> set xs)"
| "cmatch ic Digit09 c = (48 \<le> code c \<and> code c \<le> 57)"
| "cmatch ic Word c = is_word c"
| "cmatch ic Space c = is_space c"
| "cmatch ic Dot c = (c \<noteq> CHR 0x0A)"

type_synonym caps = "(nat \<times> string) list"

text \<open>The rests left by a greedy \<open>a*\<close>: the longest run first, then one character less, ...\<close>

fun star_rests :: "bool \<Rightarrow> cclass \<Rightarrow> string \<Rightarrow> string list" where
  "star_rests ic a [] = [[]]"
| "star_rests ic a (c # cs) =
     (if cmatch ic a c then star_rests ic a cs @ [c # cs] else [c # cs])"

fun ms :: "bool \<Rightarrow> regex \<Rightarrow> string \<Rightarrow> caps \<Rightarrow> (string \<times> caps) list" where
  "ms ic Eps s g = [(s, g)]"
| "ms ic (Atom a) s g =
     (case s of [] \<Rightarrow> [] | c # cs \<Rightarrow> if cmatch ic a c then [(cs, g)] else [])"
| "ms ic (Seq r1 r2) s g = concat (map (\<lambda>(t, h). ms ic r2 t h) (ms ic r1 s g))"
| "ms ic (Alt r1 r2) s g = ms ic r1 s g @ ms ic r2 s g"
| "ms ic (Star a) s g = map (\<lambda>t. (t, g)) (star_rests ic a s)"
| "ms ic (Plus a) s g =
     (case s of
        [] \<Rightarrow> []
      | c # cs \<Rightarrow> if cmatch ic a c then map (\<lambda>t. (t, g)) (star_rests ic a cs) else [])"
| "ms ic (Opt r) s g = ms ic r s g @ [(s, g)]"
| "ms ic (Group n r) s g =
     map (\<lambda>(t, h). (t, (n, take (length s - length t) s) # h)) (ms ic r s g)"

text \<open>A literal word, and a sequence of pieces.\<close>

fun lit :: "string \<Rightarrow> regex" where
  "lit [] = Eps"
| "lit (c # cs) = Seq (Atom (Lit c)) (lit cs)"

fun seqs :: "regex list \<Rightarrow> regex" where
  "seqs [] = Eps"
| "seqs (r # rs) = Seq r (seqs rs)"

text \<open>\<open>re.search(p, s, flags)\<close> as a truth value: some position of \<open>s\<close> starts a match.\<close>

definition re_search :: "bool \<Rightarrow> regex \<Rightarrow> string \<Rightarrow> bool" where
  "re_search ic r s = list_ex (\<lambda>t. ms ic r t [] \<noteq> []) (tails s)"

text \<open>
  The scan shared by \<open>re.findall\<close> and \<open>re.sub\<close> (no flags): the text is cut into
  copied characters and non-overlapping matches, leftmost first. After an empty match
  the next match at the same position has to be non-empty (\<open>adv\<close>).
\<close>

datatype piece = Copy char | Hit string caps

function scan :: "regex \<Rightarrow> string \<Rightarrow> bool \<Rightarrow> piece list" where
  "scan r s adv =
     (case find (\<lambda>(t, g). \<not> adv \<or> length t < length s) (ms False r s []) of
        None \<Rightarrow> (case s of [] \<Rightarrow> [] | c # cs \<Rightarrow> Copy c # scan r cs False)
      | Some (t, g) \<Rightarrow>
          if length t < length s
          then Hit (take (length s - length t) s) g # scan r t False
          else Hit [] g # scan r s True)"
  by pat_completeness auto
termination
proof (relation "measure (\<lambda>(r, s, adv). 2 * length s + (if adv then 0 else 1))", goal_cases)
  case 1
  show ?case by simp
next
  case (2 r s adv c cs)
  then show ?case by simp
next
  case (3 r s adv x t g)
  then show ?case by simp
next
  case (4 r s adv x t g)
  from 4(1) have "case x of (t, g) \<Rightarrow> \<not> adv \<or> length t < length s"
    by (auto simp: find_Some_iff)
  with 4(2,3) have "\<not> adv" by auto
  then show ?case by simp
qed

text \<open>\<open>re.findall(p, s)\<close>: the matches, in order; the fixer only counts them.\<close>

fun hits :: "piece list \<Rightarrow> (string \<times> caps) list" where
  "hits [] = []"
| "hits (Copy c # ps) = hits ps"
| "hits (Hit m g # ps) = (m, g) # hits ps"

definition re_findall :: "regex \<Rightarrow> string \<Rightarrow> (string \<times> caps) list" where
  "re_findall r s = hits (scan r s False)"

text \<open>
  A replacement template: literal text and group references \<open>\1\<close>, \<open>\2\<close>, ...; a group
  that took no part in the match expands to the empty string.
\<close>

datatype titem = TLit string | TGroup nat

fun expand :: "titem list \<Rightarrow> caps \<Rightarrow> string" where
  "expand [] g = []"
| "expand (TLit s # ts) g = s @ expand ts g"
| "expand (TGroup n # ts) g = (case map_of g n of None \<Rightarrow> [] | Some v \<Rightarrow> v) @ expand ts g"

fun render :: "titem list \<Rightarrow> piece list \<Rightarrow> string" where
  "render tm [] = []"
| "render tm (Copy c # ps) = c # render tm ps"
| "render tm (Hit m g # ps) = expand tm g @ render tm ps"

definition re_sub :: "regex \<Rightarrow> titem list \<Rightarrow> string \<Rightarrow> string" where
  "re_sub r tm s = render tm (scan r s False)"

section \<open>The validator (complete\_validation\_runner.py)\<close>

subsection \<open>Data\<close>

text \<open>The dataclass \<open>Issue\<close>. Line numbers and counts are lengths, hence naturals.\<close>

record issue =
  severity :: string
  category :: string
  issue_file :: string    \<comment> \<open>the field \<open>file\<close>\<close>
  line :: nat
  description :: string
  solution :: string
  can_auto_fix :: bool
  code_snippet :: string

text \<open>One entry of the dictionary \<open>validation_patterns\<close>.\<close>

record pattern_info =
  p_pattern :: regex
  p_severity :: string
  p_category :: string
  p_description :: string
  p_solution :: string
  p_can_auto_fix :: bool

text \<open>
  The dataclass \<open>ValidationReport\<close>. The dictionary \<open>issues_by_category\<close> is kept in
  insertion order. The field \<open>summary\<close>, a rendering of the issues and of the category
  counts as text, is not modelled.
\<close>

record validation_report =
  total_issues :: nat
  critical_issues :: nat
  warning_issues :: nat
  info_issues :: nat
  issues_by_category :: "(string \<times> nat) list"
  all_issues :: "issue list"
  validation_time :: real
  is_deployment_ready :: bool

subsection \<open>The detection table\<close>

text \<open>
  \<open>validation_patterns\<close>, in the order of the dictionary; the pattern of each entry is
  quoted above its syntax tree.
\<close>

definition validation_patterns :: "(string \<times> pattern_info) list" where
  \<open>validation_patterns =
   [ \<comment> \<open>\<^verbatim>\<open>FindObjectOfType[<(]\<close>\<close>
     (''findobjectoftype'', \<lparr>
        p_pattern = Seq (lit ''FindObjectOfType'') (Atom (AnyOf ''<('')),
        p_severity = ''Critical'',
        p_category = ''Performance'',
        p_description = ''FindObjectOfType causes VR performance issues (50-150ms spikes)'',
        p_solution = ''Replace with CachedReferenceManager.Get<T>()'',
        p_can_auto_fix = True \<rparr>),
     \<comment> \<open>\<^verbatim>\<open>(using System\.Linq|\.Where\(|\.Select\(|\.FirstOrDefault\()\<close>\<close>
     (''linq_usage'', \<lparr>
        p_pattern = Group 1 (Alt (lit ''using System.Linq'') (Alt (lit ''.Where('')
                      (Alt (lit ''.Select('') (lit ''.FirstOrDefault('')))),
        p_severity = ''Warning'',
        p_category = ''Performance'',
        p_description = ''LINQ causes GC allocations in VR (memory pressure)'',
        p_solution = ''Replace with for loops or pre-allocated collections'',
        p_can_auto_fix = False \<rparr>),
     \<comment> \<open>\<^verbatim>\<open>async\s+void\s+\w+\<close>\<close>
     (''async_void'', \<lparr>
        p_pattern = seqs [lit ''async'', Plus Space, lit ''void'', Plus Space, Plus Word],
        p_severity = ''Critical'',
        p_category = ''AsyncPatterns'',
        p_description = ''async void can cause unhandled exceptions and memory leaks'',
        p_solution = ''Change to async Task'',
        p_can_auto_fix = True \<rparr>),
     \<comment> \<open>\<^verbatim>\<open>"\s*\+\s*\w+|\w+\s*\+\s*"\<close>\<close>
     (''string_concatenation'', \<lparr>
        p_pattern = Alt (seqs [Atom (Lit (CHR 0x22)), Star Space, Atom (Lit (CHR ''+'')),
                               Star Space, Plus Word])
                        (seqs [Plus Word, Star Space, Atom (Lit (CHR ''+'')), Star Space,
                               Atom (Lit (CHR 0x22))]),
        p_severity = ''Warning'',
        p_category = ''Performance'',
        p_description = ''String concatenation in loops causes GC pressure'',
        p_solution = ''Use StringBuilder or string interpolation'',
        p_can_auto_fix = False \<rparr>),
     \<comment> \<open>\<^verbatim>\<open>StartCoroutine\(\<close>\<close>
     (''legacy_coroutines'', \<lparr>
        p_pattern = lit ''StartCoroutine('',
        p_severity = ''Warning'',
        p_category = ''Unity6Compliance'',
        p_description = ''Legacy coroutines, consider async/await for Unity 6'',
        p_solution = ''Convert to async Task methods'',
        p_can_auto_fix = False \<rparr>),
     \<comment> \<open>\<^verbatim>\<open>Input\.(GetButton|GetKey|GetAxis)\<close>\<close>
     (''legacy_input'', \<lparr>
        p_pattern = Seq (lit ''Input.'')
                      (Group 1 (Alt (lit ''GetButton'') (Alt (lit ''GetKey'') (lit ''GetAxis'')))),
        p_severity = ''Warning'',
        p_category = ''Unity6Compliance'',
        p_description = ''Legacy Input system, Unity 6 uses new Input System'',
        p_solution = ''Migrate to Unity Input System'',
        p_can_auto_fix = False \<rparr>),
     \<comment> \<open>\<^verbatim>\<open>Resources\.Load[<(]\<close>\<close>
     (''resources_load'', \<lparr>
        p_pattern = Seq (lit ''Resources.Load'') (Atom (AnyOf ''<('')),
        p_severity = ''Warning'',
        p_category = ''Unity6Compliance'',
        p_description = ''Resources.Load is legacy, Unity 6 prefers Addressables'',
        p_solution = ''Convert to Addressable Asset System'',
        p_can_auto_fix = False \<rparr>),
     \<comment> \<open>\<^verbatim>\<open>Instantiate\(\<close>\<close>
     (''instantiate_without_pool'', \<lparr>
        p_pattern = lit ''Instantiate('',
        p_severity = ''Warning'',
        p_category = ''VROptimization'',
        p_description = ''Direct Instantiate causes GC pressure in VR'',
        p_solution = ''Use object pooling'',
        p_can_auto_fix = False \<rparr>),
     \<comment> \<open>\<^verbatim>\<open>GetComponent[<(].*\)\<close>\<close>
     (''getcomponent_in_update'', \<lparr>
        p_pattern = seqs [lit ''GetComponent'', Atom (AnyOf ''<(''), Star Dot, Atom (Lit (CHR '')''))],
        p_severity = ''Warning'',
        p_category = ''VROptimization'',
        p_description = ''GetComponent calls should be cached for VR performance'',
        p_solution = ''Cache component references in Start/Awake'',
        p_can_auto_fix = False \<rparr>),
     \<comment> \<open>\<^verbatim>\<open>Camera\.main\<close>\<close>
     (''camera_main'', \<lparr>
        p_pattern = lit ''Camera.main'',
        p_severity = ''Warning'',
        p_category = ''VROptimization'',
        p_description = ''Camera.main is slow, cache VR camera reference'',
        p_solution = ''Cache camera reference at startup'',
        p_can_auto_fix = False \<rparr>),
     \<comment> \<open>\<^verbatim>\<open>=\s*[0-9]+\.?[0-9]*[f]?\s*[;}]\<close>\<close>
     (''magic_numbers'', \<lparr>
        p_pattern = seqs [Atom (Lit (CHR ''='')), Star Space, Plus Digit09, Opt (Atom (Lit (CHR ''.''))),
                          Star Digit09, Opt (Atom (AnyOf ''f'')), Star Space, Atom (AnyOf '';}'')],
        p_severity = ''Info'',
        p_category = ''CodeQuality'',
        p_description = ''Magic numbers reduce code maintainability'',
        p_solution = ''Replace with named constants'',
        p_can_auto_fix = False \<rparr>),
     \<comment> \<open>\<^verbatim>\<open>catch[^{]*{\s*}\<close>\<close>
     (''empty_catch'', \<lparr>
        p_pattern = seqs [lit ''catch'', Star (NoneOf ''{''), Atom (Lit (CHR ''{'')), Star Space,
                          Atom (Lit (CHR ''}''))],
        p_severity = ''Warning'',
        p_category = ''CodeQuality'',
        p_description = ''Empty catch blocks hide errors'',
        p_solution = ''Add proper error handling or logging'',
        p_can_auto_fix = False \<rparr>),
     \<comment> \<open>\<^verbatim>\<open>(TODO|FIXME|HACK|BUG):\<close>\<close>
     (''todo_fixme'', \<lparr>
        p_pattern = Seq (Group 1 (Alt (lit ''TODO'') (Alt (lit ''FIXME'')
                      (Alt (lit ''HACK'') (lit ''BUG''))))) (Atom (Lit (CHR '':''))),
        p_severity = ''Info'',
        p_category = ''CodeQuality'',
        p_description = ''Unresolved development notes'',
        p_solution = ''Address or document the issue'',
        p_can_auto_fix = False \<rparr>),
     \<comment> \<open>\<^verbatim>\<open>\.Add\(\<close>\<close>
     (''list_add_in_update'', \<lparr>
        p_pattern = lit ''.Add('',
        p_severity = ''Warning'',
        p_category = ''MemoryManagement'',
        p_description = ''Collection modifications in Update can cause GC'',
        p_solution = ''Pre-allocate collections or use object pooling'',
        p_can_auto_fix = False \<rparr>),
     \<comment> \<open>\<^verbatim>\<open>new\s+\w+\(\<close>\<close>
     (''new_in_update'', \<lparr>
        p_pattern = seqs [lit ''new'', Plus Space, Plus Word, Atom (Lit (CHR ''(''))],
        p_severity = ''Warning'',
        p_category = ''MemoryManagement'',
        p_description = ''Object allocation in Update causes GC pressure'',
        p_solution = ''Move allocations outside of Update or use pooling'',
        p_can_auto_fix = False \<rparr>),
     \<comment> \<open>\<^verbatim>\<open>Invoke\(\<close>\<close>
     (''invoke_without_check'', \<lparr>
        p_pattern = lit ''Invoke('',
        p_severity = ''Info'',
        p_category = ''Threading'',
        p_description = ''Invoke without null checking can cause issues'',
        p_solution = ''Add null checks before Invoke'',
        p_can_auto_fix = False \<rparr>),
     \<comment> \<open>\<^verbatim>\<open>\w+\.\w+\(\<close>\<close>
     (''missing_null_check'', \<lparr>
        p_pattern = seqs [Plus Word, Atom (Lit (CHR ''.'')), Plus Word, Atom (Lit (CHR ''(''))],
        p_severity = ''Info'',
        p_category = ''ErrorHandling'',
        p_description = ''Potential null reference access'',
        p_solution = ''Add null checks where appropriate'',
        p_can_auto_fix = False \<rparr>) ]\<close>

subsection \<open>Files\<close>

text \<open>
  A path is the text of the path relative to the project root. A file on disk holds its
  text as Python reads it (decoded, newlines translated), or \<open>None\<close> when opening or
  decoding it raises; \<open>writable\<close> tells whether opening it for writing succeeds.
\<close>

datatype disk_file = DiskFile (contents: "string option") (writable: bool)

type_synonym filesystem = "string \<Rightarrow> disk_file"

text \<open>The line printed when the analysis of a file raises.\<close>

datatype diagnostic = ErrorAnalyzing string

subsection \<open>Analysis of one file\<close>

definition is_false_positive :: "string \<Rightarrow> string \<Rightarrow> bool" where
  "is_false_positive line_text pattern_name =
     (if startswith (strip line_text) ''//'' \<or> startswith (strip line_text) ''*'' then True
      else if pattern_name = ''findobjectoftype'' \<and> contains line_text ''CachedReferenceManager''
        then True
      else if pattern_name = ''async_void'' \<and> contains line_text ''async void Start(''
        then True
      else False)"

text \<open>The inner loop of \<open>analyze_file\<close>: every pattern against one line.\<close>

fun check_patterns ::
  "(string \<times> pattern_info) list \<Rightarrow> string \<Rightarrow> nat \<Rightarrow> string \<Rightarrow> issue list \<Rightarrow> issue list" where
  "check_patterns [] file_path line_num line_text issues = issues"
| "check_patterns ((pattern_name, info) # rest) file_path line_num line_text issues =
     (if re_search True (p_pattern info) line_text then
        (if is_false_positive line_text pattern_name
         then check_patterns rest file_path line_num line_text issues
         else check_patterns rest file_path line_num line_text
                (issues @ [\<lparr> severity = p_severity info,
                              category = p_category info,
                              issue_file = file_path,
                              line = line_num,
                              description = p_description info,
                              solution = p_solution info,
                              can_auto_fix = p_can_auto_fix info,
                              code_snippet = strip line_text \<rparr>]))
      else check_patterns rest file_path line_num line_text issues)"

text \<open>The outer loop, \<open>for line_num, line in enumerate(lines, 1)\<close>.\<close>

fun check_lines ::
  "(string \<times> pattern_info) list \<Rightarrow> string \<Rightarrow> nat \<Rightarrow> string list \<Rightarrow> issue list \<Rightarrow> issue list" where
  "check_lines tbl file_path line_num [] issues = issues"
| "check_lines tbl file_path line_num (l # ls) issues =
     check_lines tbl file_path (Suc line_num) ls (check_patterns tbl file_path line_num l issues)"

text \<open>
  \<open>analyze_file\<close> returns the issues of the file and what it printed. When reading
  raises, the loop has not started: the result is the empty list and one diagnostic.
\<close>

definition analyze_file :: "filesystem \<Rightarrow> string \<Rightarrow> issue list \<times> diagnostic list" where
  "analyze_file fs file_path =
     (case contents (fs file_path) of
        None \<Rightarrow> ([], [ErrorAnalyzing file_path])
      | Some content \<Rightarrow>
          (check_lines validation_patterns file_path 1 (split_lines content) [], []))"

subsection \<open>Analysis of the project\<close>

text \<open>
  \<open>Packages/manifest.json\<close>: absent, present but such that loading it or reading its
  dependencies raises, or present with the given dependency names.
\<close>

datatype manifest = NoManifest | BadManifest | Manifest "string list"

datatype scan_error = ManifestError

definition required_packages :: "(string \<times> string) list" where
  "required_packages =
     [(''com.unity.addressables'', ''Addressable Asset System for efficient loading''),
      (''com.unity.burst'', ''Burst compiler for performance''),
      (''com.unity.entities'', ''ECS for advanced performance''),
      (''com.unity.inputsystem'', ''New Input System for Unity 6''),
      (''com.unity.render-pipelines.universal'', ''URP for modern rendering'')]"

fun missing_packages :: "(string \<times> string) list \<Rightarrow> string list \<Rightarrow> issue list \<Rightarrow> issue list" where
  "missing_packages [] dependencies issues = issues"
| "missing_packages ((package, descr) # rest) dependencies issues =
     (if package \<notin> set dependencies
      then missing_packages rest dependencies
             (issues @ [\<lparr> severity = ''Warning'',
                           category = ''Unity6Compliance'',
                           issue_file = ''Packages/manifest.json'',
                           line = 0,
                           description = ''Missing Unity 6 package: '' @ package,
                           solution = ''Add '' @ package @ '' - '' @ descr,
                           can_auto_fix = False,
                           code_snippet = [] \<rparr>])
      else missing_packages rest dependencies issues)"

definition analyze_project_structure :: "manifest \<Rightarrow> scan_error + issue list" where
  "analyze_project_structure m =
     (case m of
        NoManifest \<Rightarrow> Inr []
      | BadManifest \<Rightarrow> Inl ManifestError
      | Manifest dependencies \<Rightarrow> Inr (missing_packages required_packages dependencies []))"

text \<open>
  \<open>analyze_scenes\<close>: the argument is \<open>None\<close> when \<open>Assets/Scenes\<close> does not exist, and
  otherwise the number of scene files under it.
\<close>

definition analyze_scenes :: "nat option \<Rightarrow> issue list" where
  "analyze_scenes scenes =
     (case scenes of
        None \<Rightarrow> []
      | Some n \<Rightarrow>
          if n < 2
          then [\<lparr> severity = ''Warning'',
                   category = ''Architecture'',
                   issue_file = ''Assets/Scenes/'',
                   line = 0,
                   description = ''Only one scene found, may need menu/loading scenes'',
                   solution = ''Consider adding multiple scenes for better organization'',
                   can_auto_fix = False,
                   code_snippet = [] \<rparr>]
          else [])"

subsection \<open>The report\<close>

text \<open>\<open>d[k] = d.get(k, 0) + 1\<close> on a dictionary in insertion order.\<close>

fun bump :: "string \<Rightarrow> (string \<times> nat) list \<Rightarrow> (string \<times> nat) list" where
  "bump k [] = [(k, 1)]"
| "bump k ((k', v) # d) = (if k = k' then (k', v + 1) # d else (k', v) # bump k d)"

fun count_by_category :: "issue list \<Rightarrow> (string \<times> nat) list \<Rightarrow> (string \<times> nat) list" where
  "count_by_category [] d = d"
| "count_by_category (i # is) d = count_by_category is (bump (category i) d)"

definition generate_report :: "issue list \<Rightarrow> real \<Rightarrow> validation_report" where
  "generate_report issues time =
     (let critical = filter (\<lambda>i. severity i = ''Critical'') issues;
          warning = filter (\<lambda>i. severity i = ''Warning'') issues;
          info = filter (\<lambda>i. severity i = ''Info'') issues;
          by_category = count_by_category issues []
      in \<lparr> total_issues = length issues,
           critical_issues = length critical,
           warning_issues = length warning,
           info_issues = length info,
           issues_by_category = by_category,
           all_issues = issues,
           validation_time = time,
           is_deployment_ready = (length critical = 0) \<rparr>)"

subsection \<open>The scan\<close>

text \<open>
  What a scan reads: the files, the list \<open>cs_files\<close> that the directory walk returns, the
  manifest and the scenes.
\<close>

record project =
  disk :: filesystem
  cs_files :: "string list"
  package_manifest :: manifest
  scenes :: "nat option"

text \<open>
  The tasks are submitted file by file, then the project task, then the scene task, and
  their results are gathered in that order. A file task never raises; the project task
  may, and then the scan raises. The two clock readings are arguments. The diagnostics
  are listed in the order of the files; on the console their order depends on the
  worker threads. Saving the report is not modelled.
\<close>

fun gather :: "filesystem \<Rightarrow> string list \<Rightarrow> issue list \<times> diagnostic list
                 \<Rightarrow> issue list \<times> diagnostic list" where
  "gather fs [] acc = acc"
| "gather fs (p # ps) (issues, printed) =
     (case analyze_file fs p of
        (found, out) \<Rightarrow> gather fs ps (issues @ found, printed @ out))"

definition run_comprehensive_validation ::
  "project \<Rightarrow> real \<Rightarrow> real \<Rightarrow> scan_error + (validation_report \<times> diagnostic list)" where
  "run_comprehensive_validation proj start_time end_time =
     (case gather (disk proj) (cs_files proj) ([], []) of
        (file_issues, printed) \<Rightarrow>
          (case analyze_project_structure (package_manifest proj) of
             Inl e \<Rightarrow> Inl e
           | Inr project_issues \<Rightarrow>
               Inr (generate_report
                      (file_issues @ project_issues @ analyze_scenes (scenes proj))
                      (end_time - start_time),
                    printed)))"

subsection \<open>The worker threads and the directory walk\<close>

text \<open>
  \<open>run_comprehensive_validation\<close> above runs the tasks one after the other. In the source
  they are submitted to a pool of worker threads, which complete them in an order that
  the code does not control. A schedule lists the numbers of the tasks in the order in
  which they complete; a number that is out of range or occurs again is skipped. A
  task writes to its own future and prints on the console, nothing else. The main
  thread reads the futures in the order of submission; reading the future of a task
  that never completes blocks for ever, which is the result \<open>None\<close>. A future that holds
  an exception raises it when it is read.
\<close>

datatype task = FileTask string | ProjectTask | SceneTask

definition submitted :: "project \<Rightarrow> task list" where
  "submitted proj = map FileTask (cs_files proj) @ [ProjectTask, SceneTask]"

fun run_task :: "project \<Rightarrow> task \<Rightarrow> (scan_error + issue list) \<times> diagnostic list" where
  "run_task proj (FileTask p) =
     (case analyze_file (disk proj) p of (found, out) \<Rightarrow> (Inr found, out))"
| "run_task proj ProjectTask = (analyze_project_structure (package_manifest proj), [])"
| "run_task proj SceneTask = (Inr (analyze_scenes (scenes proj)), [])"

record pool =
  futures :: "nat \<Rightarrow> (scan_error + issue list) option"
  console :: "diagnostic list"

fun run_workers :: "project \<Rightarrow> task list \<Rightarrow> nat list \<Rightarrow> pool \<Rightarrow> pool" where
  "run_workers proj tasks [] pl = pl"
| "run_workers proj tasks (i # schedule) pl =
     (if i < length tasks \<and> futures pl i = None
      then (case run_task proj (tasks ! i) of
              (result, out) \<Rightarrow>
                run_workers proj tasks schedule
                  (pl\<lparr> futures := (futures pl)(i \<mapsto> result), console := console pl @ out \<rparr>))
      else run_workers proj tasks schedule pl)"

text \<open>\<open>for task in tasks: all_issues.extend(task.result())\<close>.\<close>

fun read_futures ::
  "(scan_error + issue list) option list \<Rightarrow> issue list \<Rightarrow> (scan_error + issue list) option" where
  "read_futures [] issues = Some (Inr issues)"
| "read_futures (None # fs) issues = None"
| "read_futures (Some (Inl e) # fs) issues = Some (Inl e)"
| "read_futures (Some (Inr found) # fs) issues = read_futures fs (issues @ found)"

definition scan_with_schedule ::
  "project \<Rightarrow> nat list \<Rightarrow> real \<Rightarrow> real
     \<Rightarrow> (scan_error + (validation_report \<times> diagnostic list)) option" where
  "scan_with_schedule proj schedule start_time end_time =
     (let tasks = submitted proj;
          pl = run_workers proj tasks schedule \<lparr> futures = (\<lambda>i. None), console = [] \<rparr>
      in (case read_futures (map (futures pl) [0..<length tasks]) [] of
            None \<Rightarrow> None
          | Some (Inl e) \<Rightarrow> Some (Inl e)
          | Some (Inr issues) \<Rightarrow>
              Some (Inr (generate_report issues (end_time - start_time), console pl))))"

section \<open>The fixer (auto\_fix\_critical\_issues.py): data\<close>

text \<open>One entry of the dictionary \<open>fix_patterns\<close>; the key \<open>add_using\<close> is optional.\<close>

record fix_info =
  f_pattern :: regex
  f_replacement :: "titem list"
  f_description :: string
  f_add_using :: "string option"

text \<open>\<open>fix_patterns\<close>, in the order of the dictionary.\<close>

definition fix_patterns :: "(string \<times> fix_info) list" where
  \<open>fix_patterns =
   [ \<comment> \<open>\<^verbatim>\<open>FindObjectOfType<([^>]+)>\(\)\<close> to \<^verbatim>\<open>CachedReferenceManager.Get<\1>()\<close>\<close>
     (''findobjectoftype'', \<lparr>
        f_pattern = seqs [lit ''FindObjectOfType<'', Group 1 (Plus (NoneOf ''>'')), lit ''>()''],
        f_replacement = [TLit ''CachedReferenceManager.Get<'', TGroup 1, TLit ''>()''],
        f_description = ''Replace FindObjectOfType with cached reference manager'',
        f_add_using = Some ''using VRBoxingGame.Core;'' \<rparr>),
     \<comment> \<open>\<^verbatim>\<open>(private|public|protected|internal)?\s*(async\s+void\s+)(\w+)\s*\(\<close>
         to \<^verbatim>\<open>\1 async Task \3(\<close>\<close>
     (''async_void_methods'', \<lparr>
        f_pattern = seqs [Opt (Group 1 (Alt (lit ''private'') (Alt (lit ''public'')
                            (Alt (lit ''protected'') (lit ''internal''))))),
                          Star Space,
                          Group 2 (seqs [lit ''async'', Plus Space, lit ''void'', Plus Space]),
                          Group 3 (Plus Word), Star Space, Atom (Lit (CHR ''(''))],
        f_replacement = [TGroup 1, TLit '' async Task '', TGroup 3, TLit ''(''],
        f_description = ''Convert async void to async Task'',
        f_add_using = Some ''using System.Threading.Tasks;'' \<rparr>),
     \<comment> \<open>\<^verbatim>\<open>async\s+void\s+(\w+)\s*\(\<close> to \<^verbatim>\<open>async Task \1(\<close>\<close>
     (''async_void_simple'', \<lparr>
        f_pattern = seqs [lit ''async'', Plus Space, lit ''void'', Plus Space, Group 1 (Plus Word),
                          Star Space, Atom (Lit (CHR ''(''))],
        f_replacement = [TLit ''async Task '', TGroup 1, TLit ''(''],
        f_description = ''Convert simple async void to async Task'',
        f_add_using = Some ''using System.Threading.Tasks;'' \<rparr>),
     \<comment> \<open>\<^verbatim>\<open>Resources\.Load<([^>]+)>\("([^"]+)"\)\<close>
         to \<^verbatim>\<open>// TODO: Convert to Addressables - Resources.Load<\1>("\2")\<close>\<close>
     (''legacy_resources_load'', \<lparr>
        f_pattern = seqs [lit ''Resources.Load<'', Group 1 (Plus (NoneOf ''>'')), lit ''>("'',
                          Group 2 (Plus (NoneOf ''"'')), lit ''")''],
        f_replacement = [TLit ''// TODO: Convert to Addressables - Resources.Load<'', TGroup 1,
                         TLit ''>("'', TGroup 2, TLit ''")''],
        f_description = ''Mark Resources.Load for conversion to Addressables'',
        f_add_using = None \<rparr>),
     \<comment> \<open>\<^verbatim>\<open>("[^"]*")\s*\+\s*(\w+)\s*\+\s*("[^"]*")\<close> to \<^verbatim>\<open>$"\1{\2}\3"\<close>\<close>
     (''string_concatenation_simple'', \<lparr>
        f_pattern = seqs [Group 1 (seqs [lit ''"'', Star (NoneOf ''"''), lit ''"'']),
                          Star Space, Atom (Lit (CHR ''+'')), Star Space,
                          Group 2 (Plus Word),
                          Star Space, Atom (Lit (CHR ''+'')), Star Space,
                          Group 3 (seqs [lit ''"'', Star (NoneOf ''"''), lit ''"''])],
        f_replacement = [TLit ''$"'', TGroup 1, TLit ''{'', TGroup 2, TLit ''}'', TGroup 3, TLit ''"''],
        f_description = ''Convert simple string concatenation to interpolation'',
        f_add_using = None \<rparr>) ]\<close>

text \<open>\<open>skip_files\<close>: the names of the files the fixer leaves alone.\<close>

definition skip_files :: "string list" where
  "skip_files = [''EnhancingPromptSystem.cs'', ''CachedReferenceManager.cs'', ''BaselineProfiler.cs'']"

section \<open>The fixer: operations\<close>

text \<open>
  One entry of the list \<open>fixes_applied\<close> (a dictionary with the keys \<open>file\<close>,
  \<open>fix_type\<close>, \<open>description\<close> and \<open>count\<close>), and one entry of \<open>errors_encountered\<close>.
\<close>

record applied_fix =
  a_file :: string
  a_fix_type :: string
  a_description :: string
  a_count :: nat

datatype fixer_error = ErrorFixing string

text \<open>
  The state of an \<open>AutoFixer\<close> together with the disk it works on. The field \<open>writes\<close>
  lists the writes that were carried out, oldest first: the path and the text written.
  The field \<open>backed_up\<close> tells whether the directory \<open>Scripts\<close> exists under \<open>backup_dir\<close>;
  \<open>backup_dir\<close> is named in \<open>__init__\<close> after the time of creation, so for a new fixer it
  does not. The copies themselves lie outside the disk of the model; the saved report
  and the console are not modelled.
\<close>

record fixer =
  files :: filesystem
  fixes_applied :: "applied_fix list"
  errors_encountered :: "fixer_error list"
  writes :: "(string \<times> string) list"
  backed_up :: bool

definition new_fixer :: "filesystem \<Rightarrow> fixer" where
  "new_fixer fs =
     \<lparr> files = fs, fixes_applied = [], errors_encountered = [], writes = [],
       backed_up = False \<rparr>"

text \<open>
  \<open>create_backup\<close>. \<open>shutil.copytree\<close> raises \<open>FileExistsError\<close> when its destination
  exists, as it does when the same fixer has taken its backup before. Otherwise what the
  copying does, of the tree and then of the two configuration files, is an argument: it
  succeeds, or it raises, having created the destination or not. The result is the
  state and the exception raised, if any.
\<close>

datatype copy_result = Copied | CopyRaised bool

datatype backup_error = FileExistsError | CopyError

definition create_backup :: "copy_result \<Rightarrow> fixer \<Rightarrow> fixer \<times> backup_error option" where
  "create_backup copy st =
     (if backed_up st then (st, Some FileExistsError)
      else (case copy of
              Copied \<Rightarrow> (st\<lparr> backed_up := True \<rparr>, None)
            | CopyRaised created \<Rightarrow> (st\<lparr> backed_up := created \<rparr>, Some CopyError)))"

subsection \<open>Fixing one file\<close>

text \<open>
  The loop of \<open>fix_file\<close> over the fix table: the content, the list \<open>fixes_applied\<close> and
  the counter \<open>fixes_in_file\<close> are carried from one rule to the next.
\<close>

fun apply_fixes ::
  "(string \<times> fix_info) list \<Rightarrow> string \<Rightarrow> string \<Rightarrow> applied_fix list \<Rightarrow> nat
     \<Rightarrow> string \<times> applied_fix list \<times> nat" where
  "apply_fixes [] file_path modified_content fixes fixes_in_file =
     (modified_content, fixes, fixes_in_file)"
| "apply_fixes ((fix_name, info) # rest) file_path modified_content fixes fixes_in_file =
     (let matches = re_findall (f_pattern info) modified_content in
      if matches \<noteq> [] then
        (let new_content = re_sub (f_pattern info) (f_replacement info) modified_content in
         if new_content \<noteq> modified_content
         then apply_fixes rest file_path new_content
                (fixes @ [\<lparr> a_file = file_path,
                             a_fix_type = fix_name,
                             a_description = f_description info,
                             a_count = length matches \<rparr>])
                (fixes_in_file + length matches)
         else apply_fixes rest file_path modified_content fixes fixes_in_file)
      else apply_fixes rest file_path modified_content fixes fixes_in_file)"

text \<open>
  \<open>fix_file\<close>. When reading raises, or when the write at the end raises, the error is
  recorded and the result is 0; the entries already appended to \<open>fixes_applied\<close> stay.
\<close>

definition fix_file :: "fixer \<Rightarrow> string \<Rightarrow> fixer \<times> nat" where
  "fix_file st file_path =
     (case contents (files st file_path) of
        None \<Rightarrow>
          (st\<lparr> errors_encountered := errors_encountered st @ [ErrorFixing file_path] \<rparr>, 0)
      | Some original_content \<Rightarrow>
          (case apply_fixes fix_patterns file_path original_content (fixes_applied st) 0 of
             (modified_content, fixes, fixes_in_file) \<Rightarrow>
               if modified_content \<noteq> original_content then
                 (if writable (files st file_path)
                  then (st\<lparr> files := (files st)(file_path := DiskFile (Some modified_content) True),
                            fixes_applied := fixes,
                            writes := writes st @ [(file_path, modified_content)] \<rparr>,
                        fixes_in_file)
                  else (st\<lparr> fixes_applied := fixes,
                            errors_encountered := errors_encountered st @ [ErrorFixing file_path] \<rparr>,
                        0))
               else (st\<lparr> fixes_applied := fixes \<rparr>, fixes_in_file)))"

subsection \<open>Adding the using statements\<close>

text \<open>
  The dictionary \<open>files_needing_using\<close>, from a path to the set of statements it needs;
  the keys are in insertion order and a set is held without duplicates.
\<close>

fun add_need :: "string \<Rightarrow> string \<Rightarrow> (string \<times> string list) list \<Rightarrow> (string \<times> string list) list" where
  "add_need p u [] = [(p, [u])]"
| "add_need p u ((q, us) # d) =
     (if p = q then (q, if u \<in> set us then us else us @ [u]) # d
      else (q, us) # add_need p u d)"

fun files_needing_using ::
  "(string \<times> fix_info) list \<Rightarrow> applied_fix list \<Rightarrow> (string \<times> string list) list
     \<Rightarrow> (string \<times> string list) list" where
  "files_needing_using tbl [] d = d"
| "files_needing_using tbl (fix # fixes) d =
     (case map_of tbl (a_fix_type fix) of
        None \<Rightarrow> files_needing_using tbl fixes d
      | Some info \<Rightarrow>
          (case f_add_using info of
             None \<Rightarrow> files_needing_using tbl fixes d
           | Some using_statement \<Rightarrow>
               if using_statement = [] then files_needing_using tbl fixes d
               else files_needing_using tbl fixes (add_need (a_file fix) using_statement d)))"

text \<open>The index after the last line that is a using statement, 0 when there is none.\<close>

fun find_insert_index :: "string list \<Rightarrow> nat \<Rightarrow> nat \<Rightarrow> nat" where
  "find_insert_index [] i insert_index = insert_index"
| "find_insert_index (l # ls) i insert_index =
     (if startswith (strip l) ''using '' \<and> \<not> startswith (strip l) ''using static''
      then find_insert_index ls (Suc i) (Suc i)
      else find_insert_index ls (Suc i) insert_index)"

text \<open>\<open>lines.insert(insert_index, using_stmt); insert_index += 1\<close>, for each statement.\<close>

fun insert_statements :: "string list \<Rightarrow> nat \<Rightarrow> string list \<Rightarrow> string list" where
  "insert_statements lines insert_index [] = lines"
| "insert_statements lines insert_index (u # us) =
     insert_statements (take insert_index lines @ u # drop insert_index lines) (Suc insert_index) us"

text \<open>
  The work on one file. Python does not fix the order in which a set of strings is
  iterated; \<open>set_order\<close> stands for it: it lists the elements of a set.
\<close>

definition add_using_to_file ::
  "(string list \<Rightarrow> string list) \<Rightarrow> fixer \<Rightarrow> string \<times> string list \<Rightarrow> fixer" where
  "add_using_to_file set_order st entry =
     (case entry of (file_path, using_statements) \<Rightarrow>
        (case contents (files st file_path) of
           None \<Rightarrow> st
         | Some content \<Rightarrow>
             (let missing_statements =
                    filter (\<lambda>using_stmt. \<not> contains content using_stmt) (set_order using_statements)
              in if missing_statements \<noteq> [] then
                   (let lines = split_lines content;
                        new_content = join_lines (insert_statements lines
                                        (find_insert_index lines 0 0) missing_statements)
                    in if writable (files st file_path)
                       then st\<lparr> files := (files st)(file_path := DiskFile (Some new_content) True),
                                writes := writes st @ [(file_path, new_content)] \<rparr>
                       else st)
                 else st)))"

definition add_missing_using_statements :: "(string list \<Rightarrow> string list) \<Rightarrow> fixer \<Rightarrow> fixer" where
  "add_missing_using_statements set_order st =
     foldl (add_using_to_file set_order) st (files_needing_using fix_patterns (fixes_applied st) [])"

subsection \<open>A pass over the files\<close>

text \<open>\<open>Path.name\<close>: the last component of a path.\<close>

definition path_name :: "string \<Rightarrow> string" where
  "path_name p = rev (takeWhile (\<lambda>c. c \<noteq> CHR ''/'') (rev p))"

fun fix_all :: "fixer \<Rightarrow> string list \<Rightarrow> nat \<Rightarrow> fixer \<times> nat" where
  "fix_all st [] total_fixes = (st, total_fixes)"
| "fix_all st (file_path # rest) total_fixes =
     (if path_name file_path \<in> set skip_files then fix_all st rest total_fixes
      else (case fix_file st file_path of
              (st', fixes_in_file) \<Rightarrow> fix_all st' rest (total_fixes + fixes_in_file)))"

fun get_fixes_by_type :: "applied_fix list \<Rightarrow> (string \<times> nat) list \<Rightarrow> (string \<times> nat) list" where
  "get_fixes_by_type [] d = d"
| "get_fixes_by_type (fix # fixes) d =
     get_fixes_by_type fixes
       (case map_of d (a_fix_type fix) of
          None \<Rightarrow> d @ [(a_fix_type fix, a_count fix)]
        | Some c \<Rightarrow> map (\<lambda>(k, v). if k = a_fix_type fix then (k, v + a_count fix) else (k, v)) d)"

record fix_report =
  total_fixes_applied :: nat
  files_modified :: nat
  fixes_by_type :: "(string \<times> nat) list"
  errors :: "fixer_error list"

text \<open>
  \<open>auto_fix_all_issues\<close>: the backup first, outside the \<open>try\<close>, so that an exception of
  \<open>create_backup\<close> ends the pass before any file is looked at; then the files, the using
  statements and the report. The result is the state and the exception or the report.
\<close>

definition auto_fix_all_issues ::
  "(string list \<Rightarrow> string list) \<Rightarrow> copy_result \<Rightarrow> fixer \<Rightarrow> string list
     \<Rightarrow> fixer \<times> (backup_error + fix_report)" where
  "auto_fix_all_issues set_order copy st paths =
     (case create_backup copy st of
        (st0, Some e) \<Rightarrow> (st0, Inl e)
      | (st0, None) \<Rightarrow>
          (case fix_all st0 paths 0 of
             (st1, total_fixes) \<Rightarrow>
               (let st2 = add_missing_using_statements set_order st1
                in (st2, Inr \<lparr> total_fixes_applied = total_fixes,
                               files_modified = length (remdups (map a_file (fixes_applied st2))),
                               fixes_by_type = get_fixes_by_type (fixes_applied st2) [],
                               errors = errors_encountered st2 \<rparr>))))"

section \<open>Auxiliary notions for the proofs\<close>

text \<open>
  \<open>must_use ic P r\<close>: by the shape of \<open>r\<close> alone, every text that \<open>r\<close> matches holds a
  character that satisfies \<open>P\<close>. \<open>adjacent Q s\<close>: two neighbouring characters of \<open>s\<close>
  satisfy \<open>Q\<close>.
\<close>

definition accepts_only :: "bool \<Rightarrow> cclass \<Rightarrow> (char \<Rightarrow> bool) \<Rightarrow> bool" where
  "accepts_only ic a P = (\<forall>c. cmatch ic a c \<longrightarrow> P c)"



section \<open>Example inputs\<close>

text \<open>A small project on which the theorems below are instantiated.\<close>

definition example_disk :: filesystem where
  "example_disk =
     (\<lambda>p. DiskFile None False)
       (''Assets/Scripts/A.cs'' := DiskFile (Some ''FindObjectOfType<T>()'') True,
        ''Assets/Scripts/C.cs'' := DiskFile (Some ''// FindObjectOfType<T>()'') True,
        ''Assets/Scripts/D.cs'' := DiskFile (Some ''findobjectoftype<t>()'') True,
        ''Assets/Scripts/E.cs'' := DiskFile (Some ''/* FindObjectOfType<T>() */'') True,
        ''Assets/Scripts/F.cs'' := DiskFile (Some ''FindObjectOfType<PlayerController>()'') True,
        ''Assets/Scripts/G.cs'' := DiskFile (Some ''FindObjectOfType(typeof(T))'') True,
        ''Assets/Scripts/H.cs'' := DiskFile (Some ''FindObjectOfType<List<T>>()'') True,
        ''Assets/Scripts/I.cs'' := DiskFile (Some ''FindObjectOfType<CachedReferenceManager>()'') True,
        ''Assets/Scripts/CachedReferenceManager.cs'' := DiskFile (Some ''FindObjectOfType<T>()'') True)"

definition example_finding :: issue where
  "example_finding =
     \<lparr> severity = ''Critical'', category = ''Performance'',
       issue_file = ''Assets/Scripts/A.cs'', line = 1,
       description = ''FindObjectOfType causes VR performance issues (50-150ms spikes)'',
       solution = ''Replace with CachedReferenceManager.Get<T>()'', can_auto_fix = True,
       code_snippet = ''FindObjectOfType<T>()'' \<rparr>"

definition example_project :: project where
  "example_project =
     \<lparr> disk = example_disk,
       cs_files = [''Assets/Scripts/A.cs'', ''Assets/Scripts/B.cs''],
       package_manifest = NoManifest,
       scenes = None \<rparr>"

definition example_fix :: applied_fix where
  "example_fix =
     \<lparr> a_file = ''Assets/Scripts/A.cs'', a_fix_type = ''findobjectoftype'',
       a_description = ''Replace FindObjectOfType with cached reference manager'',
       a_count = 1 \<rparr>"

definition example_fixed :: string where
  "example_fixed = ''CachedReferenceManager.Get<T>()''"

definition example_patched :: string where
  "example_patched = ''using VRBoxingGame.Core;'' @ CHR 0x0A # ''CachedReferenceManager.Get<T>()''"

definition example_after_fix :: fixer where
  "example_after_fix =
     \<lparr> files = example_disk(''Assets/Scripts/A.cs'' := DiskFile (Some example_fixed) True),
       fixes_applied = [example_fix],
       errors_encountered = [],
       writes = [(''Assets/Scripts/A.cs'', example_fixed)],
       backed_up = True \<rparr>"

definition example_after_pass :: fixer where
  "example_after_pass =
     \<lparr> files = example_disk(''Assets/Scripts/A.cs'' := DiskFile (Some example_patched) True),
       fixes_applied = [example_fix],
       errors_encountered = [],
       writes = [(''Assets/Scripts/A.cs'', example_fixed), (''Assets/Scripts/A.cs'', example_patched)],
       backed_up = True \<rparr>"

definition example_lower_finding :: issue where
  "example_lower_finding =
     \<lparr> severity = ''Critical'', category = ''Performance'',
       issue_file = ''Assets/Scripts/D.cs'', line = 1,
       description = ''FindObjectOfType causes VR performance issues (50-150ms spikes)'',
       solution = ''Replace with CachedReferenceManager.Get<T>()'', can_auto_fix = True,
       code_snippet = ''findobjectoftype<t>()'' \<rparr>"

definition example_block_finding :: issue where
  "example_block_finding =
     \<lparr> severity = ''Critical'', category = ''Performance'',
       issue_file = ''Assets/Scripts/E.cs'', line = 1,
       description = ''FindObjectOfType causes VR performance issues (50-150ms spikes)'',
       solution = ''Replace with CachedReferenceManager.Get<T>()'', can_auto_fix = True,
       code_snippet = ''/* FindObjectOfType<T>() */'' \<rparr>"

text \<open>The same two files, as two directory walks list them.\<close>

definition example_walk :: project where
  "example_walk =
     \<lparr> disk = example_disk,
       cs_files = [''Assets/Scripts/A.cs'', ''Assets/Scripts/D.cs''],
       package_manifest = NoManifest,
       scenes = None \<rparr>"

definition example_walk_reversed :: project where
  "example_walk_reversed =
     \<lparr> disk = example_disk,
       cs_files = [''Assets/Scripts/D.cs'', ''Assets/Scripts/A.cs''],
       package_manifest = NoManifest,
       scenes = None \<rparr>"







section \<open>The scanner: lemmas\<close>

lemma check_patterns_acc:
  "check_patterns tbl p n l acc = acc @ check_patterns tbl p n l []"
proof (induction tbl arbitrary: acc)
  case Nil
  show ?case by simp
next
  case (Cons e tbl)
  obtain name info where e: "e = (name, info)" by (cases e)
  show ?case
    unfolding e
    by (simp, metis Cons.IH append.assoc)
qed

lemma check_lines_acc:
  "check_lines tbl p n ls acc = acc @ check_lines tbl p n ls []"
proof (induction ls arbitrary: n acc)
  case Nil
  show ?case by simp
next
  case (Cons l ls)
  have "check_lines tbl p n (l # ls) acc
        = check_patterns tbl p n l acc @ check_lines tbl p (Suc n) ls []"
    using Cons.IH [of "Suc n" "check_patterns tbl p n l acc"] by simp
  also have "\<dots> = acc @ check_patterns tbl p n l [] @ check_lines tbl p (Suc n) ls []"
    using check_patterns_acc [of tbl p n l acc] by simp
  also have "\<dots> = acc @ check_lines tbl p n (l # ls) []"
    using Cons.IH [of "Suc n" "check_patterns tbl p n l []"] by simp
  finally show ?case .
qed

lemma check_lines_Cons:
  "check_lines tbl p n (l # ls) [] = check_patterns tbl p n l [] @ check_lines tbl p (Suc n) ls []"
  using check_lines_acc [of tbl p "Suc n" ls "check_patterns tbl p n l []"] by simp

lemma check_patterns_Cons:
  "check_patterns ((name, info) # tbl) p n l [] =
     (if re_search True (p_pattern info) l \<and> \<not> is_false_positive l name
      then [\<lparr> severity = p_severity info, category = p_category info, issue_file = p,
               line = n, description = p_description info, solution = p_solution info,
               can_auto_fix = p_can_auto_fix info, code_snippet = strip l \<rparr>]
      else []) @ check_patterns tbl p n l []"
  using check_patterns_acc [of tbl p n l "[x]" for x] by simp

text \<open>Every issue found on a line comes from an entry of the table that matches the line.\<close>

lemma check_patterns_sound:
  "i \<in> set (check_patterns tbl p n l []) \<Longrightarrow>
     \<exists>name info. (name, info) \<in> set tbl \<and> re_search True (p_pattern info) l \<and>
       \<not> is_false_positive l name \<and>
       i = \<lparr> severity = p_severity info, category = p_category info, issue_file = p,
             line = n, description = p_description info, solution = p_solution info,
             can_auto_fix = p_can_auto_fix info, code_snippet = strip l \<rparr>"
proof (induction tbl)
  case Nil
  then show ?case by simp
next
  case (Cons e tbl)
  obtain name info where e: "e = (name, info)" by (cases e)
  from Cons.prems show ?case
    unfolding e check_patterns_Cons
    using Cons.IH by (auto split: if_splits)
qed

lemma check_patterns_line: "i \<in> set (check_patterns tbl p n l []) \<Longrightarrow> line i = n"
  by (drule check_patterns_sound) auto

lemma check_patterns_count:
  "distinct (map (\<lambda>e. p_description (snd e)) tbl) \<Longrightarrow> (name, info) \<in> set tbl \<Longrightarrow>
   length (filter (\<lambda>i. description i = p_description info) (check_patterns tbl p n l []))
     = (if re_search True (p_pattern info) l \<and> \<not> is_false_positive l name then 1 else 0)"
proof (induction tbl)
  case Nil
  then show ?case by simp
next
  case (Cons e tbl)
  obtain name' info' where e: "e = (name', info')" by (cases e)
  have dist: "distinct (map (\<lambda>e. p_description (snd e)) tbl)"
    and fresh: "p_description info' \<notin> (\<lambda>e. p_description (snd e)) ` set tbl"
    using Cons.prems(1) unfolding e by auto
  show ?case
  proof (cases "(name, info) = (name', info')")
    case True
    have "filter (\<lambda>i. description i = p_description info) (check_patterns tbl p n l []) = []"
    proof (rule ccontr)
      assume "filter (\<lambda>i. description i = p_description info) (check_patterns tbl p n l []) \<noteq> []"
      then obtain i where i: "i \<in> set (check_patterns tbl p n l [])"
        and d: "description i = p_description info"
        by (auto simp: filter_empty_conv)
      from check_patterns_sound [OF i] obtain nm inf where "(nm, inf) \<in> set tbl"
        and "description i = p_description inf" by auto
      with d fresh True show False by force
    qed
    with True show ?thesis unfolding e check_patterns_Cons by simp
  next
    case False
    with Cons.prems(2) have mem: "(name, info) \<in> set tbl" unfolding e by auto
    then have "p_description info \<noteq> p_description info'" using fresh by force
    then show ?thesis
      unfolding e check_patterns_Cons using Cons.IH [OF dist mem] by simp
  qed
qed

text \<open>The issues of a file, line by line.\<close>

lemma check_lines_sound:
  "i \<in> set (check_lines tbl p n ls []) \<Longrightarrow>
     \<exists>k < length ls. i \<in> set (check_patterns tbl p (n + k) (ls ! k) [])"
proof (induction ls arbitrary: n)
  case Nil
  then show ?case by simp
next
  case (Cons l ls)
  from Cons.prems consider "i \<in> set (check_patterns tbl p n l [])"
    | "i \<in> set (check_lines tbl p (Suc n) ls [])"
    unfolding check_lines_Cons by auto
  then show ?case
  proof cases
    case 1
    then show ?thesis by (intro exI [of _ 0]) simp
  next
    case 2
    from Cons.IH [OF 2] obtain k where "k < length ls"
      "i \<in> set (check_patterns tbl p (Suc n + k) (ls ! k) [])" by blast
    then show ?thesis by (intro exI [of _ "Suc k"]) simp
  qed
qed

lemma check_lines_count:
  "k < length ls \<Longrightarrow>
   filter (\<lambda>i. line i = n + k) (check_lines tbl p n ls [])
     = check_patterns tbl p (n + k) (ls ! k) []"
proof (induction ls arbitrary: n k)
  case Nil
  then show ?case by simp
next
  case (Cons l ls)
  have here: "filter (\<lambda>i. line i = m) (check_patterns tbl p n l [])
                = (if m = n then check_patterns tbl p n l [] else [])" for m
    by (auto simp: filter_empty_conv filter_id_conv dest: check_patterns_line)
  have later: "filter (\<lambda>i. line i = n) (check_lines tbl p (Suc n) ls []) = []"
  proof -
    have "line i \<noteq> n" if "i \<in> set (check_lines tbl p (Suc n) ls [])" for i
    proof -
      from check_lines_sound [OF that] obtain k where
        "i \<in> set (check_patterns tbl p (Suc n + k) (ls ! k) [])" by blast
      then show ?thesis by (auto dest: check_patterns_line)
    qed
    then show ?thesis by (auto simp: filter_empty_conv)
  qed
  show ?case
  proof (cases k)
    case 0
    then show ?thesis unfolding check_lines_Cons using here [of n] later by simp
  next
    case (Suc j)
    with Cons.prems have j: "j < length ls" by simp
    from Cons.IH [OF j, of "Suc n"] show ?thesis
      unfolding check_lines_Cons Suc using here [of "n + Suc j"] by simp
  qed
qed

lemma distinct_descriptions:
  "distinct (map (\<lambda>e. p_description (snd e)) validation_patterns)"
  by (simp add: validation_patterns_def)

lemma generate_report_ready:
  "is_deployment_ready (generate_report issues t)
     = (length (filter (\<lambda>i. severity i = ''Critical'') (all_issues (generate_report issues t))) = 0)"
  "critical_issues (generate_report issues t)
     = length (filter (\<lambda>i. severity i = ''Critical'') (all_issues (generate_report issues t)))"
  by (simp_all add: generate_report_def Let_def)

lemma run_report:
  "run_comprehensive_validation proj t0 t1 = Inr (report, printed) \<Longrightarrow>
     \<exists>issues t. report = generate_report issues t"
  by (auto simp: run_comprehensive_validation_def split: prod.splits sum.splits)

text \<open>
  Claim C1. For every scan that returns a report, the verdict \<open>is_deployment_ready\<close> is
  true exactly when the report holds no issue of severity Critical, and the field
  \<open>critical_issues\<close> is the number of such issues.
\<close>

theorem deployment_ready_iff_no_critical:
  assumes "run_comprehensive_validation proj t0 t1 = Inr (report, printed)"
  shows "(is_deployment_ready report \<longleftrightarrow>
            length (filter (\<lambda>i. severity i = ''Critical'') (all_issues report)) = 0) \<and>
         critical_issues report
           = length (filter (\<lambda>i. severity i = ''Critical'') (all_issues report))"
proof -
  from run_report [OF assms] obtain issues t where "report = generate_report issues t"
    by blast
  then show ?thesis using generate_report_ready [of issues t] by simp
qed

lemma analyze_file_readable:
  "contents (fs p) = Some content \<Longrightarrow>
     analyze_file fs p = (check_lines validation_patterns p 1 (split_lines content) [], [])"
  by (simp add: analyze_file_def)

text \<open>
  Claim C2. For a readable file: every issue that \<open>analyze_file\<close> returns is built from an
  entry of the detection table whose pattern matches, ignoring case, the line the issue
  names, and that the filter did not suppress; and for every line and every entry of the
  table, the file has exactly one issue for that pair when the pattern matches the line
  and the filter keeps it, and none otherwise.
\<close>

theorem findings_match_rules:
  assumes "contents (fs p) = Some content"
  shows "(\<forall>i \<in> set (fst (analyze_file fs p)).
            \<exists>name info. (name, info) \<in> set validation_patterns \<and>
              1 \<le> line i \<and> line i \<le> length (split_lines content) \<and>
              re_search True (p_pattern info) (split_lines content ! (line i - 1)) \<and>
              \<not> is_false_positive (split_lines content ! (line i - 1)) name \<and>
              i = \<lparr> severity = p_severity info, category = p_category info, issue_file = p,
                    line = line i, description = p_description info,
                    solution = p_solution info, can_auto_fix = p_can_auto_fix info,
                    code_snippet = strip (split_lines content ! (line i - 1)) \<rparr>) \<and>
         (\<forall>n name info.
            1 \<le> n \<and> n \<le> length (split_lines content) \<and> (name, info) \<in> set validation_patterns \<longrightarrow>
            length (filter (\<lambda>i. line i = n \<and> description i = p_description info)
                      (fst (analyze_file fs p)))
              = (if re_search True (p_pattern info) (split_lines content ! (n - 1)) \<and>
                    \<not> is_false_positive (split_lines content ! (n - 1)) name
                 then 1 else 0))"
proof (intro conjI ballI allI impI)
  let ?ls = "split_lines content"
  let ?found = "check_lines validation_patterns p 1 ?ls []"
  have found: "fst (analyze_file fs p) = ?found"
    using analyze_file_readable [of fs p content] assms by simp
  {
    fix i assume "i \<in> set (fst (analyze_file fs p))"
    then have "i \<in> set ?found" using found by simp
    from check_lines_sound [OF this] obtain k where k: "k < length ?ls"
      and i: "i \<in> set (check_patterns validation_patterns p (1 + k) (?ls ! k) [])" by blast
    from check_patterns_line [OF i] have ln: "line i = 1 + k" .
    from check_patterns_sound [OF i] obtain name info where
      "(name, info) \<in> set validation_patterns" "re_search True (p_pattern info) (?ls ! k)"
      "\<not> is_false_positive (?ls ! k) name"
      "i = \<lparr> severity = p_severity info, category = p_category info, issue_file = p,
             line = 1 + k, description = p_description info, solution = p_solution info,
             can_auto_fix = p_can_auto_fix info, code_snippet = strip (?ls ! k) \<rparr>"
      by blast
    with k ln show "\<exists>name info. (name, info) \<in> set validation_patterns \<and>
              1 \<le> line i \<and> line i \<le> length ?ls \<and>
              re_search True (p_pattern info) (?ls ! (line i - 1)) \<and>
              \<not> is_false_positive (?ls ! (line i - 1)) name \<and>
              i = \<lparr> severity = p_severity info, category = p_category info, issue_file = p,
                    line = line i, description = p_description info,
                    solution = p_solution info, can_auto_fix = p_can_auto_fix info,
                    code_snippet = strip (?ls ! (line i - 1)) \<rparr>"
      by (intro exI [of _ name] exI [of _ info]) simp
  }
  {
    fix n name info
    assume h: "1 \<le> n \<and> n \<le> length ?ls \<and> (name, info) \<in> set validation_patterns"
    then obtain k where n: "n = 1 + k" and k: "k < length ?ls"
      by (cases n) auto
    have "filter (\<lambda>i. line i = n \<and> description i = p_description info) ?found
            = filter (\<lambda>i. description i = p_description info)
                (filter (\<lambda>i. line i = 1 + k) ?found)"
      unfolding n by (simp add: conj_commute)
    also have "\<dots> = filter (\<lambda>i. description i = p_description info)
                       (check_patterns validation_patterns p (1 + k) (?ls ! k) [])"
      using check_lines_count [OF k, of 1 validation_patterns p] by simp
    finally show "length (filter (\<lambda>i. line i = n \<and> description i = p_description info)
                      (fst (analyze_file fs p)))
              = (if re_search True (p_pattern info) (?ls ! (n - 1)) \<and>
                    \<not> is_false_positive (?ls ! (n - 1)) name
                 then 1 else 0)"
      unfolding found
      using check_patterns_count [OF distinct_descriptions, of name info p "1 + k" "?ls ! k"] h
      by (simp add: n)
  }
qed

lemma comment_is_false_positive:
  "startswith (strip l) ''//'' \<or> startswith (strip l) ''*'' \<Longrightarrow> is_false_positive l name"
  by (simp add: is_false_positive_def)

lemma check_patterns_comment:
  "startswith (strip l) ''//'' \<or> startswith (strip l) ''*'' \<Longrightarrow>
     check_patterns tbl p n l [] = []"
  by (induction tbl) (auto simp: comment_is_false_positive)

lemma check_lines_comment:
  "\<forall>l \<in> set ls. startswith (strip l) ''//'' \<or> startswith (strip l) ''*'' \<Longrightarrow>
     check_lines tbl p n ls [] = []"
  by (induction ls arbitrary: n) (simp_all add: check_patterns_comment)

text \<open>
  The two prefixes that \<open>is_false_positive\<close> tests. A line whose trimmed form starts with
  \<open>//\<close> or \<open>*\<close> is a false positive for every pattern name, and a readable file whose
  lines are all of that kind yields no issue.
\<close>

lemma line_comments_yield_no_findings:
  "(startswith (strip l) ''//'' \<or> startswith (strip l) ''*'' \<longrightarrow> is_false_positive l name) \<and>
   (contents (fs p) = Some content \<and>
    (\<forall>l \<in> set (split_lines content). startswith (strip l) ''//'' \<or> startswith (strip l) ''*'')
      \<longrightarrow> fst (analyze_file fs p) = [])"
  using comment_is_false_positive [of l name] check_lines_comment [of "split_lines content"]
  by (auto simp: analyze_file_def)

lemma example_A_issues:
  "check_lines validation_patterns ''Assets/Scripts/A.cs'' 1 (split_lines ''FindObjectOfType<T>()'') []
     = [example_finding]"
  by code_simp

lemma example_A_analysis:
  "analyze_file example_disk ''Assets/Scripts/A.cs'' = ([example_finding], [])"
proof -
  have "contents (example_disk ''Assets/Scripts/A.cs'') = Some ''FindObjectOfType<T>()''"
    by (simp add: example_disk_def)
  then show ?thesis
    by (simp only: analyze_file_def option.case example_A_issues)
qed

lemma example_B_analysis:
  "analyze_file example_disk ''Assets/Scripts/B.cs'' = ([], [ErrorAnalyzing ''Assets/Scripts/B.cs''])"
  by (simp add: analyze_file_def example_disk_def)

lemma example_run:
  "run_comprehensive_validation example_project t0 t1
     = Inr (generate_report [example_finding] (t1 - t0), [ErrorAnalyzing ''Assets/Scripts/B.cs''])"
  by (simp add: run_comprehensive_validation_def example_project_def example_A_analysis
        example_B_analysis analyze_project_structure_def analyze_scenes_def)

theorem deployment_ready_iff_no_critical_witness:
  "run_comprehensive_validation example_project 0 1
     = Inr (generate_report [example_finding] 1, [ErrorAnalyzing ''Assets/Scripts/B.cs'']) \<and>
   \<not> is_deployment_ready (generate_report [example_finding] 1) \<and>
   length (filter (\<lambda>i. severity i = ''Critical'')
             (all_issues (generate_report [example_finding] 1))) = 1 \<and>
   critical_issues (generate_report [example_finding] 1) = 1"
proof -
  have run: "run_comprehensive_validation example_project 0 1
     = Inr (generate_report [example_finding] 1, [ErrorAnalyzing ''Assets/Scripts/B.cs''])"
    using example_run [of 0 1] by simp
  have "length (filter (\<lambda>i. severity i = ''Critical'')
             (all_issues (generate_report [example_finding] 1))) = 1"
    by (simp add: generate_report_def example_finding_def)
  with deployment_ready_iff_no_critical [OF run] run show ?thesis by simp
qed

lemma example_line_matches:
  "re_search True (p_pattern (snd (hd validation_patterns))) ''FindObjectOfType<T>()''"
  by code_simp

lemma example_line_kept:
  "\<not> is_false_positive ''FindObjectOfType<T>()'' (fst (hd validation_patterns))"
  by code_simp

theorem findings_match_rules_witness:
  "contents (example_disk ''Assets/Scripts/A.cs'') = Some ''FindObjectOfType<T>()'' \<and>
   re_search True (p_pattern (snd (hd validation_patterns))) ''FindObjectOfType<T>()'' \<and>
   length (filter (\<lambda>i. line i = 1 \<and>
                        description i = p_description (snd (hd validation_patterns)))
             (fst (analyze_file example_disk ''Assets/Scripts/A.cs''))) = 1"
proof -
  have c: "contents (example_disk ''Assets/Scripts/A.cs'') = Some ''FindObjectOfType<T>()''"
    by (simp add: example_disk_def)
  have mem: "(fst (hd validation_patterns), snd (hd validation_patterns)) \<in> set validation_patterns"
    by (simp add: validation_patterns_def)
  have ls: "split_lines ''FindObjectOfType<T>()'' = [''FindObjectOfType<T>()'']"
    by code_simp
  from findings_match_rules
         [of example_disk "''Assets/Scripts/A.cs''" "''FindObjectOfType<T>()''", OF c] have
    "1 \<le> (1::nat) \<and> 1 \<le> length (split_lines ''FindObjectOfType<T>()'') \<and>
       (fst (hd validation_patterns), snd (hd validation_patterns)) \<in> set validation_patterns \<longrightarrow>
     length (filter (\<lambda>i. line i = 1 \<and>
                        description i = p_description (snd (hd validation_patterns)))
             (fst (analyze_file example_disk ''Assets/Scripts/A.cs'')))
       = (if re_search True (p_pattern (snd (hd validation_patterns)))
               (split_lines ''FindObjectOfType<T>()'' ! (1 - 1)) \<and>
             \<not> is_false_positive (split_lines ''FindObjectOfType<T>()'' ! (1 - 1))
                 (fst (hd validation_patterns))
          then 1 else 0)"
    by blast
  with c mem example_line_matches example_line_kept show ?thesis
    by (simp add: ls)
qed

lemma example_comment_matches:
  "re_search True (p_pattern (snd (hd validation_patterns))) ''// FindObjectOfType<T>()''"
  by code_simp

lemma example_comment_marker: "startswith (strip ''// FindObjectOfType<T>()'') ''//''"
  by code_simp

lemma example_line_comment:
  "re_search True (p_pattern (snd (hd validation_patterns))) ''// FindObjectOfType<T>()'' \<and>
   is_false_positive ''// FindObjectOfType<T>()'' (fst (hd validation_patterns)) \<and>
   fst (analyze_file example_disk ''Assets/Scripts/C.cs'') = []"
proof -
  have c: "contents (example_disk ''Assets/Scripts/C.cs'') = Some ''// FindObjectOfType<T>()''"
    by (simp add: example_disk_def)
  have ls: "split_lines ''// FindObjectOfType<T>()'' = [''// FindObjectOfType<T>()'']"
    by code_simp
  from line_comments_yield_no_findings
         [of "''// FindObjectOfType<T>()''" "fst (hd validation_patterns)" example_disk
             "''Assets/Scripts/C.cs''" "''// FindObjectOfType<T>()''"]
    c example_comment_marker example_comment_matches
  show ?thesis by (simp add: ls)
qed

lemma example_E_issues:
  "check_lines validation_patterns ''Assets/Scripts/E.cs'' 1
     (split_lines ''/* FindObjectOfType<T>() */'') [] = [example_block_finding]"
  by code_simp

lemma example_E_line:
  "strip ''/* FindObjectOfType<T>() */'' = ''/* FindObjectOfType<T>() */''"
  "split_lines ''/* FindObjectOfType<T>() */'' = [''/* FindObjectOfType<T>() */'']"
  "startswith ''/* FindObjectOfType<T>() */'' ''/*''"
  "\<not> is_false_positive ''/* FindObjectOfType<T>() */'' (fst (hd validation_patterns))"
  by code_simp+

text \<open>
  Claim C4. The code tests two prefixes only, under the comment \<open>Skip comments\<close>. The file
  \<open>E.cs\<close> of the example holds the single line \<open>/* FindObjectOfType<T>() */\<close>, a comment:
  its trimmed form starts with the comment marker \<open>/*\<close>, the filter does not suppress it
  for the first rule of the table, and the analysis of the file returns one issue,
  Critical, where the claim demands none.
\<close>

theorem block_comment_line_reported:
  "contents (example_disk ''Assets/Scripts/E.cs'') = Some ''/* FindObjectOfType<T>() */'' \<and>
   split_lines ''/* FindObjectOfType<T>() */'' = [''/* FindObjectOfType<T>() */''] \<and>
   startswith (strip ''/* FindObjectOfType<T>() */'') ''/*'' \<and>
   \<not> is_false_positive ''/* FindObjectOfType<T>() */'' (fst (hd validation_patterns)) \<and>
   analyze_file example_disk ''Assets/Scripts/E.cs'' = ([example_block_finding], []) \<and>
   severity example_block_finding = ''Critical''"
proof -
  have c: "contents (example_disk ''Assets/Scripts/E.cs'') = Some ''/* FindObjectOfType<T>() */''"
    by (simp add: example_disk_def)
  then have a: "analyze_file example_disk ''Assets/Scripts/E.cs'' = ([example_block_finding], [])"
    by (simp only: analyze_file_def option.case example_E_issues)
  have s: "severity example_block_finding = ''Critical''"
    by (simp add: example_block_finding_def)
  from c a s example_E_line show ?thesis by simp
qed
section \<open>The scan: failures\<close>

lemma gather_result:
  "gather fs ps (issues, printed)
     = (issues @ concat (map (\<lambda>p. fst (analyze_file fs p)) ps),
        printed @ concat (map (\<lambda>p. snd (analyze_file fs p)) ps))"
  by (induction ps arbitrary: issues printed) (auto split: prod.splits)

lemma analyze_file_unreadable:
  "contents (fs p) = None \<Longrightarrow> analyze_file fs p = ([], [ErrorAnalyzing p])"
  by (simp add: analyze_file_def)

lemma analyze_file_prints:
  "snd (analyze_file fs p) = (if contents (fs p) = None then [ErrorAnalyzing p] else [])"
  by (auto simp: analyze_file_def)

lemma run_result:
  "package_manifest proj \<noteq> BadManifest \<Longrightarrow>
   \<exists>project_issues.
     analyze_project_structure (package_manifest proj) = Inr project_issues \<and>
     run_comprehensive_validation proj t0 t1
       = Inr (generate_report
                (concat (map (\<lambda>p. fst (analyze_file (disk proj) p)) (cs_files proj)) @
                 project_issues @ analyze_scenes (scenes proj))
                (t1 - t0),
              concat (map (\<lambda>p. snd (analyze_file (disk proj) p)) (cs_files proj)))"
  by (cases "package_manifest proj")
     (simp_all add: run_comprehensive_validation_def gather_result analyze_project_structure_def)

text \<open>
  Claim C7. Unless the project task raises, a scan returns a report whatever files are
  unreadable. A file whose reading raises contributes no issue and one printed
  diagnostic naming it; the issues found in every file of the walk, in particular in
  every other file, are in the report.
\<close>

theorem unreadable_file_does_not_abort_scan:
  assumes "package_manifest proj \<noteq> BadManifest"
  shows "\<exists>report printed.
           run_comprehensive_validation proj t0 t1 = Inr (report, printed) \<and>
           (\<forall>p \<in> set (cs_files proj).
              contents (disk proj p) = None \<longrightarrow>
                analyze_file (disk proj) p = ([], [ErrorAnalyzing p]) \<and>
                ErrorAnalyzing p \<in> set printed) \<and>
           (\<forall>q \<in> set (cs_files proj).
              set (fst (analyze_file (disk proj) q)) \<subseteq> set (all_issues report)) \<and>
           set printed = {ErrorAnalyzing p | p. p \<in> set (cs_files proj) \<and> contents (disk proj p) = None}"
proof -
  from run_result [OF assms, of t0 t1] obtain project_issues where
    run: "run_comprehensive_validation proj t0 t1
       = Inr (generate_report
                (concat (map (\<lambda>p. fst (analyze_file (disk proj) p)) (cs_files proj)) @
                 project_issues @ analyze_scenes (scenes proj))
                (t1 - t0),
              concat (map (\<lambda>p. snd (analyze_file (disk proj) p)) (cs_files proj)))"
    by blast
  let ?report = "generate_report
                (concat (map (\<lambda>p. fst (analyze_file (disk proj) p)) (cs_files proj)) @
                 project_issues @ analyze_scenes (scenes proj))
                (t1 - t0)"
  let ?printed = "concat (map (\<lambda>p. snd (analyze_file (disk proj) p)) (cs_files proj))"
  have issues: "all_issues ?report
      = concat (map (\<lambda>p. fst (analyze_file (disk proj) p)) (cs_files proj)) @
        project_issues @ analyze_scenes (scenes proj)"
    by (simp add: generate_report_def Let_def)
  have printed: "set ?printed
      = {ErrorAnalyzing p | p. p \<in> set (cs_files proj) \<and> contents (disk proj p) = None}"
    by (auto simp: analyze_file_prints split: if_splits)
  have a: "\<forall>p \<in> set (cs_files proj).
              contents (disk proj p) = None \<longrightarrow>
                analyze_file (disk proj) p = ([], [ErrorAnalyzing p]) \<and>
                ErrorAnalyzing p \<in> set ?printed"
    unfolding printed by (auto simp: analyze_file_unreadable)
  have b: "\<forall>q \<in> set (cs_files proj).
              set (fst (analyze_file (disk proj) q)) \<subseteq> set (all_issues ?report)"
    unfolding issues by auto
  from run a b printed show ?thesis by blast
qed

theorem unreadable_file_does_not_abort_scan_witness:
  "package_manifest example_project \<noteq> BadManifest \<and>
   contents (disk example_project ''Assets/Scripts/B.cs'') = None \<and>
   (\<exists>report printed.
      run_comprehensive_validation example_project 0 1 = Inr (report, printed) \<and>
      ErrorAnalyzing ''Assets/Scripts/B.cs'' \<in> set printed \<and>
      example_finding \<in> set (all_issues report))"
proof -
  have m: "package_manifest example_project \<noteq> BadManifest"
    by (simp add: example_project_def)
  have u: "contents (disk example_project ''Assets/Scripts/B.cs'') = None"
    by (simp add: example_project_def example_disk_def)
  have files: "cs_files example_project = [''Assets/Scripts/A.cs'', ''Assets/Scripts/B.cs'']"
    and d: "disk example_project = example_disk"
    by (simp_all add: example_project_def)
  from unreadable_file_does_not_abort_scan [OF m, of 0 1] obtain report printed where
    run: "run_comprehensive_validation example_project 0 1 = Inr (report, printed)"
    and a: "\<forall>p \<in> set (cs_files example_project).
              contents (disk example_project p) = None \<longrightarrow>
                analyze_file (disk example_project) p = ([], [ErrorAnalyzing p]) \<and>
                ErrorAnalyzing p \<in> set printed"
    and b: "\<forall>q \<in> set (cs_files example_project).
              set (fst (analyze_file (disk example_project) q)) \<subseteq> set (all_issues report)"
    by blast
  from a u have "ErrorAnalyzing ''Assets/Scripts/B.cs'' \<in> set printed"
    by (simp add: files)
  moreover from b have "example_finding \<in> set (all_issues report)"
    by (simp add: files d example_A_analysis)
  ultimately show ?thesis using m u run by blast
qed

section \<open>The fix rules: what a match looks like\<close>

subsection \<open>A match of a fix rule always changes the text\<close>

lemma scan_first_hit:
  "hits (scan r s adv) \<noteq> [] \<Longrightarrow>
     \<exists>pre u t g rest. s = pre @ u \<and> (t, g) \<in> set (ms False r u []) \<and>
        render tm (scan r s adv) = pre @ expand tm g @ rest"
proof (induction r s adv rule: scan.induct)
  case (1 r s adv)
  show ?case
  proof (cases "find (\<lambda>(t, g). \<not> adv \<or> length t < length s) (ms False r s [])")
    case None
    with "1.prems" obtain c cs where s: "s = c # cs" and h: "hits (scan r cs False) \<noteq> []"
      by (subst (asm) scan.simps) (auto split: list.splits)
    from "1.IH"(1) [OF None s h] obtain pre u t g rest where
      "cs = pre @ u" "(t, g) \<in> set (ms False r u [])"
      "render tm (scan r cs False) = pre @ expand tm g @ rest"
      by blast
    moreover have "render tm (scan r s adv) = c # render tm (scan r cs False)"
      using None s by (subst scan.simps) simp
    ultimately have "s = (c # pre) @ u" "(t, g) \<in> set (ms False r u [])"
      "render tm (scan r s adv) = (c # pre) @ expand tm g @ rest"
      using s by simp_all
    then show ?thesis by blast
  next
    case (Some x)
    obtain t g where x: "x = (t, g)" by (cases x)
    from Some have mem: "(t, g) \<in> set (ms False r s [])"
      unfolding x find_Some_iff by (metis nth_mem)
    have "\<exists>rest. render tm (scan r s adv) = expand tm g @ rest"
      using Some x by (subst scan.simps) simp
    then obtain rest where "render tm (scan r s adv) = [] @ expand tm g @ rest" by auto
    moreover have "s = [] @ s" by simp
    ultimately show ?thesis using mem by blast
  qed
qed

lemma sub_changes:
  assumes "\<And>u t g rest. (t, g) \<in> set (ms False r u []) \<Longrightarrow> expand tm g @ rest \<noteq> u"
    and "re_findall r c \<noteq> []"
  shows "re_sub r tm c \<noteq> c"
proof -
  from assms(2) have "hits (scan r c False) \<noteq> []" by (simp add: re_findall_def)
  from scan_first_hit [OF this, of tm] obtain pre u t g rest where
    "c = pre @ u" "(t, g) \<in> set (ms False r u [])"
    "render tm (scan r c False) = pre @ expand tm g @ rest"
    by blast
  with assms(1) [of t g u rest] show ?thesis by (simp add: re_sub_def)
qed

lemma star_rests_D:
  "t \<in> set (star_rests ic a s) \<Longrightarrow> \<exists>w. s = w @ t \<and> (\<forall>x \<in> set w. cmatch ic a x)"
proof (induction s)
  case Nil
  then show ?case by simp
next
  case (Cons c s)
  show ?case
  proof (cases "t = c # s")
    case True
    then show ?thesis by (intro exI [of _ "[]"]) simp
  next
    case False
    with Cons.prems have c: "cmatch ic a c" and "t \<in> set (star_rests ic a s)"
      by (auto split: if_splits)
    from Cons.IH [OF this(2)] obtain w where "s = w @ t" "\<forall>x \<in> set w. cmatch ic a x" by blast
    with c show ?thesis by (intro exI [of _ "c # w"]) simp
  qed
qed

lemma ms_lit_D: "(t, h) \<in> set (ms False (lit w) s g) \<Longrightarrow> s = w @ t \<and> h = g"
  by (induction w arbitrary: s) (auto split: list.splits if_splits)

lemma ms_Seq_D:
  "(t, h) \<in> set (ms ic (Seq r1 r2) s g) \<Longrightarrow>
     \<exists>t1 h1. (t1, h1) \<in> set (ms ic r1 s g) \<and> (t, h) \<in> set (ms ic r2 t1 h1)"
  by auto

lemma ms_Star_D:
  "(t, h) \<in> set (ms ic (Star a) s g) \<Longrightarrow> h = g \<and> (\<exists>w. s = w @ t \<and> (\<forall>x \<in> set w. cmatch ic a x))"
  using star_rests_D [of t ic a s] by auto

lemma ms_Plus_D:
  "(t, h) \<in> set (ms ic (Plus a) s g) \<Longrightarrow>
     h = g \<and> (\<exists>c w. s = c # w @ t \<and> cmatch ic a c \<and> (\<forall>x \<in> set w. cmatch ic a x))"
proof -
  assume a: "(t, h) \<in> set (ms ic (Plus a) s g)"
  then obtain c cs where s: "s = c # cs" and c: "cmatch ic a c"
    and t: "t \<in> set (star_rests ic a cs)" and h: "h = g"
    by (auto split: list.splits if_splits)
  from star_rests_D [OF t] obtain w where "cs = w @ t" "\<forall>x \<in> set w. cmatch ic a x" by blast
  with s c h show ?thesis by auto
qed

lemma ms_Group_D:
  "(t, h) \<in> set (ms ic (Group n r) s g) \<Longrightarrow>
     \<exists>h'. (t, h') \<in> set (ms ic r s g) \<and> h = (n, take (length s - length t) s) # h'"
  by auto

text \<open>The shape of a text matched by \<open>async\s+void\s+\<close>.\<close>

lemma async_void_D:
  assumes "(t, h) \<in> set (ms False (Seq (lit ''async'') (Seq (Plus Space) (Seq (lit ''void'') r))) s g)"
  shows "\<exists>c w v. s = ''async'' @ c # w @ ''void'' @ v \<and> is_space c \<and> (\<forall>x \<in> set w. is_space x) \<and>
           (t, h) \<in> set (ms False r v g)"
proof -
  from ms_Seq_D [OF assms] obtain t1 h1 where
    1: "(t1, h1) \<in> set (ms False (lit ''async'') s g)"
    and 2: "(t, h) \<in> set (ms False (Seq (Plus Space) (Seq (lit ''void'') r)) t1 h1)" by blast
  from ms_lit_D [OF 1] have s: "s = ''async'' @ t1" and h1: "h1 = g" by simp_all
  from ms_Seq_D [OF 2] obtain t2 h2 where
    3: "(t2, h2) \<in> set (ms False (Plus Space) t1 h1)"
    and 4: "(t, h) \<in> set (ms False (Seq (lit ''void'') r) t2 h2)" by blast
  from ms_Plus_D [OF 3] obtain c w where h2: "h2 = h1" and t1: "t1 = c # w @ t2"
    and c: "is_space c" and w: "\<forall>x \<in> set w. is_space x" by auto
  from ms_Seq_D [OF 4] obtain t3 h3 where
    5: "(t3, h3) \<in> set (ms False (lit ''void'') t2 h2)"
    and 6: "(t, h) \<in> set (ms False r t3 h3)" by blast
  from ms_lit_D [OF 5] have t2: "t2 = ''void'' @ t3" and h3: "h3 = h2" by simp_all
  from s t1 t2 c w 6 h1 h2 h3 show ?thesis
    by (intro exI [of _ c] exI [of _ w] exI [of _ t3]) simp
qed

lemma not_space_letters: "\<not> is_space CHR ''T''" "\<not> is_space CHR ''a''"
  by (simp_all add: is_space_def code_def)

lemma async_void_differs:
  assumes "is_space c" and "\<forall>x \<in> set w. is_space x"
  shows "''async'' @ c # w @ ''void'' @ v \<noteq> ''async Task '' @ rest"
proof
  assume "''async'' @ c # w @ ''void'' @ v = ''async Task '' @ rest"
  then have eq: "w @ ''void'' @ v = ''Task '' @ rest" by simp
  show False
  proof (cases w)
    case Nil
    with eq show False by simp
  next
    case (Cons x xs)
    with eq have "x = CHR ''T''" by simp
    with assms(2) Cons not_space_letters show False by simp
  qed
qed

lemma spaces_async_void_differs:
  assumes "\<forall>x \<in> set w0. is_space x" and "is_space c" and "\<forall>x \<in> set w. is_space x"
  shows "w0 @ ''async'' @ c # w @ ''void'' @ v \<noteq> '' async Task '' @ rest"
proof
  assume eq: "w0 @ ''async'' @ c # w @ ''void'' @ v = '' async Task '' @ rest"
  show False
  proof (cases w0)
    case Nil
    with eq show False by simp
  next
    case (Cons x xs)
    with eq have eq2: "xs @ ''async'' @ c # w @ ''void'' @ v = ''async Task '' @ rest" by simp
    show False
    proof (cases xs)
      case Nil
      with eq2 async_void_differs [OF assms(2,3), of v rest] show False by simp
    next
      case (Cons y ys)
      with eq2 have "y = CHR ''a''" by simp
      with assms(1) \<open>w0 = x # xs\<close> Cons not_space_letters show False by simp
    qed
  qed
qed

lemma ms_Atom_D: "(t, h) \<in> set (ms ic (Atom a) s g) \<Longrightarrow> h = g"
  by (auto split: list.splits if_splits)

lemma rule_findobjectoftype_changes:
  assumes "(t, g) \<in> set (ms False (f_pattern (snd (fix_patterns ! 0))) u [])"
  shows "expand (f_replacement (snd (fix_patterns ! 0))) g @ rest \<noteq> u"
proof -
  have pat: "f_pattern (snd (fix_patterns ! 0))
      = Seq (lit ''FindObjectOfType<'') (seqs [Group 1 (Plus (NoneOf ''>'')), lit ''>()''])"
    by (simp add: fix_patterns_def)
  from ms_Seq_D [OF assms [unfolded pat]] ms_lit_D
  obtain t1 where "u = ''FindObjectOfType<'' @ t1" by blast
  then show ?thesis by (simp add: fix_patterns_def)
qed

lemma rule_resources_changes:
  assumes "(t, g) \<in> set (ms False (f_pattern (snd (fix_patterns ! 3))) u [])"
  shows "expand (f_replacement (snd (fix_patterns ! 3))) g @ rest \<noteq> u"
proof -
  have pat: "f_pattern (snd (fix_patterns ! 3))
      = Seq (lit ''Resources.Load<'')
          (seqs [Group 1 (Plus (NoneOf ''>'')), lit [CHR ''>'', CHR ''('', CHR 0x22],
                 Group 2 (Plus (NoneOf [CHR 0x22])), lit [CHR 0x22, CHR '')'']])"
    by (simp add: fix_patterns_def)
  from ms_Seq_D [OF assms [unfolded pat]] ms_lit_D
  obtain t1 where "u = ''Resources.Load<'' @ t1" by blast
  then show ?thesis by (simp add: fix_patterns_def)
qed

lemma rule_concatenation_changes:
  assumes "(t, g) \<in> set (ms False (f_pattern (snd (fix_patterns ! 4))) u [])"
  shows "expand (f_replacement (snd (fix_patterns ! 4))) g @ rest \<noteq> u"
proof -
  have pat: "f_pattern (snd (fix_patterns ! 4))
      = Seq (Group 1 (Seq (lit [CHR 0x22]) (seqs [Star (NoneOf [CHR 0x22]), lit [CHR 0x22]])))
          (seqs [Star Space, Atom (Lit (CHR ''+'')), Star Space, Group 2 (Plus Word),
                 Star Space, Atom (Lit (CHR ''+'')), Star Space,
                 Group 3 (seqs [lit [CHR 0x22], Star (NoneOf [CHR 0x22]), lit [CHR 0x22]])])"
    by (simp add: fix_patterns_def)
  from ms_Seq_D [OF assms [unfolded pat]] obtain t1 h1 where
    "(t1, h1) \<in> set (ms False
        (Group 1 (Seq (lit [CHR 0x22]) (seqs [Star (NoneOf [CHR 0x22]), lit [CHR 0x22]]))) u [])"
    by blast
  from ms_Group_D [OF this] obtain h' where
    "(t1, h') \<in> set (ms False
        (Seq (lit [CHR 0x22]) (seqs [Star (NoneOf [CHR 0x22]), lit [CHR 0x22]])) u [])"
    by blast
  from ms_Seq_D [OF this] ms_lit_D obtain t2 where "u = [CHR 0x22] @ t2" by blast
  then show ?thesis by (simp add: fix_patterns_def)
qed

lemma rule_async_simple_changes:
  assumes "(t, g) \<in> set (ms False (f_pattern (snd (fix_patterns ! 2))) u [])"
  shows "expand (f_replacement (snd (fix_patterns ! 2))) g @ rest \<noteq> u"
proof -
  have pat: "f_pattern (snd (fix_patterns ! 2))
      = Seq (lit ''async'') (Seq (Plus Space) (Seq (lit ''void'')
          (seqs [Plus Space, Group 1 (Plus Word), Star Space, Atom (Lit (CHR ''(''))])))"
    by (simp add: fix_patterns_def)
  have rep: "f_replacement (snd (fix_patterns ! 2)) = [TLit ''async Task '', TGroup 1, TLit ''('']"
    by (simp add: fix_patterns_def)
  from async_void_D [OF assms [unfolded pat]] obtain c w v where
    u: "u = ''async'' @ c # w @ ''void'' @ v" and c: "is_space c"
    and w: "\<forall>x \<in> set w. is_space x" by blast
  have ne: "''async Task '' @ R \<noteq> u" for R
    unfolding u using async_void_differs [OF c w, of v R] by (rule not_sym)
  show ?thesis
    unfolding rep expand.simps append_assoc by (rule ne)
qed

lemma ms_Eps_D: "(t, h) \<in> set (ms ic Eps s g) \<Longrightarrow> t = s \<and> h = g"
  by simp

lemma modifier_D:
  assumes "(t, h) \<in> set (ms False
      (Opt (Group 1 (Alt (lit ''private'') (Alt (lit ''public'')
         (Alt (lit ''protected'') (lit ''internal'')))))) u [])"
  shows "\<exists>m. u = m @ t \<and> (case map_of h 1 of None \<Rightarrow> [] | Some v \<Rightarrow> v) = m"
proof -
  let ?alts = "Alt (lit ''private'') (Alt (lit ''public'')
                 (Alt (lit ''protected'') (lit ''internal'')))"
  from assms consider "(t, h) \<in> set (ms False (Group 1 ?alts) u [])" | "t = u" "h = []"
    by (auto simp del: ms.simps(8) lit.simps simp add: ms.simps(7))
  then show ?thesis
  proof cases
    case 1
    from ms_Group_D [OF 1] obtain h' where a: "(t, h') \<in> set (ms False ?alts u [])"
      and h: "h = (1, take (length u - length t) u) # h'" by blast
    from a have "\<exists>m. (t, h') \<in> set (ms False (lit m) u [])"
      by (auto simp del: lit.simps)
    then obtain m where "u = m @ t" using ms_lit_D by blast
    with h show ?thesis by simp
  next
    case 2
    then show ?thesis by simp
  qed
qed

lemma rule_async_methods_changes:
  assumes "(t, g) \<in> set (ms False (f_pattern (snd (fix_patterns ! 1))) u [])"
  shows "expand (f_replacement (snd (fix_patterns ! 1))) g @ rest \<noteq> u"
proof -
  let ?modifier = "Opt (Group 1 (Alt (lit ''private'') (Alt (lit ''public'')
                     (Alt (lit ''protected'') (lit ''internal'')))))"
  let ?async_void = "Seq (lit ''async'') (Seq (Plus Space) (Seq (lit ''void'') (seqs [Plus Space])))"
  let ?tail = "Seq (Group 3 (Plus Word)) (Seq (Star Space) (Seq (Atom (Lit (CHR ''(''))) Eps))"
  have pat: "f_pattern (snd (fix_patterns ! 1))
      = Seq ?modifier (Seq (Star Space) (Seq (Group 2 ?async_void) ?tail))"
    by (simp add: fix_patterns_def)
  have rep: "f_replacement (snd (fix_patterns ! 1))
      = [TGroup 1, TLit '' async Task '', TGroup 3, TLit ''('']"
    by (simp add: fix_patterns_def)
  from ms_Seq_D [OF assms [unfolded pat]] obtain t1 h1 where
    1: "(t1, h1) \<in> set (ms False ?modifier u [])"
    and 2: "(t, g) \<in> set (ms False (Seq (Star Space) (Seq (Group 2 ?async_void) ?tail)) t1 h1)"
    by blast
  from modifier_D [OF 1] obtain m where u: "u = m @ t1"
    and m: "(case map_of h1 1 of None \<Rightarrow> [] | Some v \<Rightarrow> v) = m" by blast
  from ms_Seq_D [OF 2] obtain t2 h2 where
    3: "(t2, h2) \<in> set (ms False (Star Space) t1 h1)"
    and 4: "(t, g) \<in> set (ms False (Seq (Group 2 ?async_void) ?tail) t2 h2)" by blast
  from ms_Star_D [OF 3] obtain w0 where h2: "h2 = h1" and t1: "t1 = w0 @ t2"
    and w0: "\<forall>x \<in> set w0. is_space x" by auto
  from ms_Seq_D [OF 4] obtain t3 h3 where
    5: "(t3, h3) \<in> set (ms False (Group 2 ?async_void) t2 h2)"
    and 6: "(t, g) \<in> set (ms False ?tail t3 h3)" by blast
  from ms_Group_D [OF 5] obtain h' where
    7: "(t3, h') \<in> set (ms False ?async_void t2 h2)"
    and h3: "h3 = (2, take (length t2 - length t3) t2) # h'" by blast
  from async_void_D [OF 7] obtain c w v where
    t2: "t2 = ''async'' @ c # w @ ''void'' @ v" and c: "is_space c"
    and w: "\<forall>x \<in> set w. is_space x"
    and 8: "(t3, h') \<in> set (ms False (seqs [Plus Space]) v h2)" by blast
  from 8 have "(t3, h') \<in> set (ms False (Seq (Plus Space) Eps) v h2)" by (simp only: seqs.simps)
  from ms_Seq_D [OF this] ms_Plus_D ms_Eps_D have h': "h' = h2" by blast
  from ms_Seq_D [OF 6] obtain t4 h4 where
    9: "(t4, h4) \<in> set (ms False (Group 3 (Plus Word)) t3 h3)"
    and 10: "(t, g) \<in> set (ms False (Seq (Star Space) (Seq (Atom (Lit (CHR ''(''))) Eps)) t4 h4)"
    by blast
  from ms_Group_D [OF 9] ms_Plus_D obtain n where h4: "h4 = (3, n) # h3" by blast
  from ms_Seq_D [OF 10] obtain t5 h5 where
    11: "(t5, h5) \<in> set (ms False (Star Space) t4 h4)"
    and 12: "(t, g) \<in> set (ms False (Seq (Atom (Lit (CHR ''(''))) Eps) t5 h5)" by blast
  from ms_Star_D [OF 11] have h5: "h5 = h4" by simp
  from ms_Seq_D [OF 12] ms_Atom_D ms_Eps_D have "g = h5" by blast
  with h5 h4 h3 h' h2 have g: "g = (3, n) # (2, take (length t2 - length t3) t2) # h1" by simp
  have ex: "expand [TGroup 1, TLit '' async Task '', TGroup 3, TLit ''(''] g @ rest
              = m @ '' async Task '' @ (n @ ''('' @ rest)"
    unfolding g using m by simp
  have "'' async Task '' @ (n @ ''('' @ rest) \<noteq> w0 @ ''async'' @ c # w @ ''void'' @ v"
    using spaces_async_void_differs [OF w0 c w, of v "n @ ''('' @ rest"] by (rule not_sym)
  then show ?thesis
    unfolding rep ex u t1 t2 by simp
qed

text \<open>Whenever a rule of \<open>fix_patterns\<close> matches, its substitution changes the content.\<close>

lemma fix_rule_changes:
  assumes "k < length fix_patterns"
    and "re_findall (f_pattern (snd (fix_patterns ! k))) c \<noteq> []"
  shows "re_sub (f_pattern (snd (fix_patterns ! k))) (f_replacement (snd (fix_patterns ! k))) c \<noteq> c"
proof -
  from assms(1) have "k < 5" by (simp add: fix_patterns_def)
  then consider "k = 0" | "k = 1" | "k = 2" | "k = 3" | "k = 4" by linarith
  then show ?thesis
  proof cases
    case 1
    show ?thesis unfolding 1
      by (rule sub_changes [OF rule_findobjectoftype_changes assms(2) [unfolded 1]])
  next
    case 2
    show ?thesis unfolding 2
      by (rule sub_changes [OF rule_async_methods_changes assms(2) [unfolded 2]])
  next
    case 3
    show ?thesis unfolding 3
      by (rule sub_changes [OF rule_async_simple_changes assms(2) [unfolded 3]])
  next
    case 4
    show ?thesis unfolding 4
      by (rule sub_changes [OF rule_resources_changes assms(2) [unfolded 4]])
  next
    case 5
    show ?thesis unfolding 5
      by (rule sub_changes [OF rule_concatenation_changes assms(2) [unfolded 5]])
  qed
qed

section \<open>The fixer: one file\<close>

lemma apply_fixes_append:
  "apply_fixes (xs @ ys) p c f n
     = (case apply_fixes xs p c f n of (c', f', n') \<Rightarrow> apply_fixes ys p c' f' n')"
  by (induction xs arbitrary: c f n) (auto simp: Let_def)

lemma apply_fixes_acc:
  "apply_fixes tbl p c f n
     = (fst (apply_fixes tbl p c [] 0),
        f @ fst (snd (apply_fixes tbl p c [] 0)),
        n + snd (snd (apply_fixes tbl p c [] 0)))"
proof (induction tbl arbitrary: c f n)
  case Nil
  show ?case by simp
next
  case (Cons e tbl)
  obtain name info where e: "e = (name, info)" by (cases e)
  let ?m = "re_findall (f_pattern info) c"
  let ?new = "re_sub (f_pattern info) (f_replacement info) c"
  let ?rec = "\<lparr> a_file = p, a_fix_type = name, a_description = f_description info,
                 a_count = length ?m \<rparr>"
  show ?case
  proof (cases "?m \<noteq> [] \<and> ?new \<noteq> c")
    case True
    then have step: "apply_fixes (e # tbl) p c g k
                       = apply_fixes tbl p ?new (g @ [?rec]) (k + length ?m)" for g k
      by (simp add: e Let_def)
    show ?thesis
      unfolding step
      using Cons.IH [of ?new "f @ [?rec]" "n + length ?m"]
        Cons.IH [of ?new "[?rec]" "length ?m"]
      by simp
  next
    case False
    then have step: "apply_fixes (e # tbl) p c g k = apply_fixes tbl p c g k" for g k
      by (auto simp: e Let_def)
    show ?thesis unfolding step using Cons.IH [of c f n] by simp
  qed
qed

text \<open>The content does not depend on the path, the records or the counter.\<close>

lemma apply_fixes_content:
  "fst (apply_fixes tbl p c f n) = fst (apply_fixes tbl p' c f' n')"
proof (induction tbl arbitrary: c f n f' n')
  case Nil
  show ?case by simp
next
  case (Cons e tbl)
  obtain name info where e: "e = (name, info)" by (cases e)
  show ?case unfolding e using Cons.IH by (simp add: Let_def)
qed

text \<open>One more rule at the end of the table.\<close>

lemma apply_fixes_snoc:
  fixes tbl p c name info
  defines "before \<equiv> fst (apply_fixes tbl p c [] 0)"
  defines "m \<equiv> re_findall (f_pattern info) before"
  defines "new \<equiv> re_sub (f_pattern info) (f_replacement info) before"
  shows "apply_fixes (tbl @ [(name, info)]) p c [] 0
     = (if m \<noteq> [] \<and> new \<noteq> before
        then (new,
              fst (snd (apply_fixes tbl p c [] 0)) @
                [\<lparr> a_file = p, a_fix_type = name, a_description = f_description info,
                    a_count = length m \<rparr>],
              snd (snd (apply_fixes tbl p c [] 0)) + length m)
        else apply_fixes tbl p c [] 0)"
  unfolding apply_fixes_append before_def m_def new_def
  by (cases "apply_fixes tbl p c [] 0") (simp add: Let_def)

lemma apply_fixes_records:
  fixes tbl p c
  defines "content_at \<equiv> \<lambda>k. fst (apply_fixes (take k tbl) p c [] 0)"
  defines "hits_at \<equiv> \<lambda>k. re_findall (f_pattern (snd (tbl ! k))) (content_at k)"
  defines "replaced_at \<equiv> \<lambda>k. re_sub (f_pattern (snd (tbl ! k)))
                                 (f_replacement (snd (tbl ! k))) (content_at k)"
  shows "fst (snd (apply_fixes tbl p c [] 0))
     = map (\<lambda>k. \<lparr> a_file = p, a_fix_type = fst (tbl ! k),
                   a_description = f_description (snd (tbl ! k)),
                   a_count = length (hits_at k) \<rparr>)
         (filter (\<lambda>k. hits_at k \<noteq> [] \<and> replaced_at k \<noteq> content_at k) [0..<length tbl])"
proof -
  define before where "before t k = fst (apply_fixes (take k t) p c [] 0)"
    for t :: "(string \<times> fix_info) list" and k
  define found where "found t k = re_findall (f_pattern (snd (t ! k))) (before t k)"
    for t :: "(string \<times> fix_info) list" and k
  define new where
    "new t k = re_sub (f_pattern (snd (t ! k))) (f_replacement (snd (t ! k))) (before t k)"
    for t :: "(string \<times> fix_info) list" and k
  define entry where
    "entry t k = \<lparr> a_file = p, a_fix_type = fst (t ! k),
                     a_description = f_description (snd (t ! k)),
                     a_count = length (found t k) \<rparr>"
    for t :: "(string \<times> fix_info) list" and k
  define changed where "changed t k \<longleftrightarrow> found t k \<noteq> [] \<and> new t k \<noteq> before t k"
    for t :: "(string \<times> fix_info) list" and k
  have "fst (snd (apply_fixes t p c [] 0)) = map (entry t) (filter (changed t) [0..<length t])"
    for t
  proof (induction t rule: rev_induct)
    case Nil
    show ?case by simp
  next
    case (snoc e t)
    obtain name info where e: "e = (name, info)" by (cases e)
    let ?n = "length t"
    have b: "before (t @ [e]) k = before t k" if "k \<le> ?n" for k
      using that by (simp add: before_def)
    have f: "found (t @ [e]) k = found t k" if "k < ?n" for k
      using that b [of k] by (simp add: found_def nth_append)
    have n: "new (t @ [e]) k = new t k" if "k < ?n" for k
      using that b [of k] by (simp add: new_def nth_append)
    have r: "entry (t @ [e]) k = entry t k" if "k < ?n" for k
      using that f [of k] by (simp add: entry_def nth_append)
    have c: "changed (t @ [e]) k = changed t k" if "k < ?n" for k
      using that f [of k] n [of k] b [of k] by (simp add: changed_def)
    have fl: "filter (changed (t @ [e])) [0..<?n] = filter (changed t) [0..<?n]"
      by (rule filter_cong) (auto simp: c)
    have mp: "map (entry (t @ [e])) (filter (changed t) [0..<?n])
                = map (entry t) (filter (changed t) [0..<?n])"
      by (rule map_cong) (auto simp: r)
    have old: "map (entry (t @ [e])) (filter (changed (t @ [e])) [0..<?n])
                 = fst (snd (apply_fixes t p c [] 0))"
      unfolding fl mp snoc.IH ..
    have bn: "before (t @ [e]) ?n = fst (apply_fixes t p c [] 0)"
      by (simp add: before_def)
    have last: "changed (t @ [e]) ?n \<longleftrightarrow>
                  re_findall (f_pattern info) (fst (apply_fixes t p c [] 0)) \<noteq> [] \<and>
                  re_sub (f_pattern info) (f_replacement info) (fst (apply_fixes t p c [] 0))
                    \<noteq> fst (apply_fixes t p c [] 0)"
      unfolding changed_def found_def new_def bn by (simp add: e)
    have rec: "entry (t @ [e]) ?n
                 = \<lparr> a_file = p, a_fix_type = name, a_description = f_description info,
                     a_count = length (re_findall (f_pattern info)
                                         (fst (apply_fixes t p c [] 0))) \<rparr>"
      unfolding entry_def found_def bn by (simp add: e)
    have "fst (snd (apply_fixes (t @ [e]) p c [] 0))
            = fst (snd (apply_fixes t p c [] 0)) @
              (if changed (t @ [e]) ?n then [entry (t @ [e]) ?n] else [])"
      unfolding e apply_fixes_snoc last [unfolded e] rec [unfolded e] by simp
    also have "\<dots> = map (entry (t @ [e])) (filter (changed (t @ [e])) [0..<length (t @ [e])])"
      using old by simp
    finally show ?case .
  qed
  from this [of tbl] show ?thesis
    unfolding entry_def changed_def found_def new_def before_def
      content_at_def hits_at_def replaced_at_def .
qed

lemma apply_fixes_step:
  fixes tbl p c
  defines "content_at \<equiv> \<lambda>k. fst (apply_fixes (take k tbl) p c [] 0)"
  assumes "k < length tbl"
  shows "content_at (Suc k)
           = (if re_findall (f_pattern (snd (tbl ! k))) (content_at k) \<noteq> []
              then re_sub (f_pattern (snd (tbl ! k))) (f_replacement (snd (tbl ! k))) (content_at k)
              else content_at k)"
proof -
  obtain name info where e: "tbl ! k = (name, info)" by (cases "tbl ! k")
  have "take (Suc k) tbl = take k tbl @ [(name, info)]"
    using assms(2) e by (simp add: take_Suc_conv_app_nth)
  then show ?thesis
    unfolding content_at_def e by (simp add: apply_fixes_snoc)
qed

lemma fix_file_readable:
  assumes "contents (files st p) = Some original"
  shows "fix_file st p =
     (let final = fst (apply_fixes fix_patterns p original [] 0);
          added = fst (snd (apply_fixes fix_patterns p original [] 0));
          n = snd (snd (apply_fixes fix_patterns p original [] 0))
      in if final \<noteq> original then
           (if writable (files st p)
            then (st\<lparr> files := (files st)(p := DiskFile (Some final) True),
                      fixes_applied := fixes_applied st @ added,
                      writes := writes st @ [(p, final)] \<rparr>, n)
            else (st\<lparr> fixes_applied := fixes_applied st @ added,
                      errors_encountered := errors_encountered st @ [ErrorFixing p] \<rparr>, 0))
         else (st\<lparr> fixes_applied := fixes_applied st @ added \<rparr>, n))"
proof -
  have "apply_fixes fix_patterns p original (fixes_applied st) 0
          = (fst (apply_fixes fix_patterns p original [] 0),
             fixes_applied st @ fst (snd (apply_fixes fix_patterns p original [] 0)),
             snd (snd (apply_fixes fix_patterns p original [] 0)))"
    using apply_fixes_acc [of fix_patterns p original "fixes_applied st" 0] by simp
  then show ?thesis
    using assms by (simp add: fix_file_def Let_def)
qed

text \<open>
  Claim C3. For a readable file, \<open>fix_file\<close> applies the fix rules in the order of the
  table, each to the content left by the rules before it. A rule that matches changes
  the content. \<open>fix_file\<close> appends one entry to \<open>fixes_applied\<close> for each rule that
  matched, in that order, with \<open>count\<close> the number of matches in the content the rule
  was applied to. The file is written at most once, with the final content: exactly
  when the final content differs from the original (and the file can be written).
\<close>

theorem fix_file_applies_rules_in_order:
  fixes st p original
  defines "content_at \<equiv> \<lambda>k. fst (apply_fixes (take k fix_patterns) p original [] 0)"
  defines "hits_at \<equiv> \<lambda>k. re_findall (f_pattern (snd (fix_patterns ! k))) (content_at k)"
  defines "replaced_at \<equiv> \<lambda>k. re_sub (f_pattern (snd (fix_patterns ! k)))
                                 (f_replacement (snd (fix_patterns ! k))) (content_at k)"
  defines "final \<equiv> content_at (length fix_patterns)"
  assumes "contents (files st p) = Some original"
  shows "content_at 0 = original \<and>
         (\<forall>k < length fix_patterns.
            content_at (Suc k) = (if hits_at k \<noteq> [] then replaced_at k else content_at k) \<and>
            (hits_at k \<noteq> [] \<longrightarrow> replaced_at k \<noteq> content_at k)) \<and>
         fixes_applied (fst (fix_file st p))
           = fixes_applied st @
             map (\<lambda>k. \<lparr> a_file = p, a_fix_type = fst (fix_patterns ! k),
                         a_description = f_description (snd (fix_patterns ! k)),
                         a_count = length (hits_at k) \<rparr>)
               (filter (\<lambda>k. hits_at k \<noteq> []) [0..<length fix_patterns]) \<and>
         writes (fst (fix_file st p))
           = writes st @ (if final \<noteq> original \<and> writable (files st p) then [(p, final)] else []) \<and>
         files (fst (fix_file st p))
           = (if final \<noteq> original \<and> writable (files st p)
              then (files st)(p := DiskFile (Some final) True) else files st)"
proof (intro conjI allI impI)
  show "content_at 0 = original" by (simp add: content_at_def)
next
  fix k assume "k < length fix_patterns"
  from apply_fixes_step [OF this, of p original]
  show "content_at (Suc k) = (if hits_at k \<noteq> [] then replaced_at k else content_at k)"
    unfolding content_at_def hits_at_def replaced_at_def .
next
  fix k assume "k < length fix_patterns" "hits_at k \<noteq> []"
  then show "replaced_at k \<noteq> content_at k"
    unfolding hits_at_def replaced_at_def by (rule fix_rule_changes)
next
  have fin: "final = fst (apply_fixes fix_patterns p original [] 0)"
    by (simp add: final_def content_at_def)
  note ff = fix_file_readable [OF assms(5), folded fin]
  have "filter (\<lambda>k. hits_at k \<noteq> [] \<and> replaced_at k \<noteq> content_at k) [0..<length fix_patterns]
          = filter (\<lambda>k. hits_at k \<noteq> []) [0..<length fix_patterns]"
    unfolding hits_at_def replaced_at_def
    by (rule filter_cong) (auto dest: fix_rule_changes)
  then show "fixes_applied (fst (fix_file st p))
           = fixes_applied st @
             map (\<lambda>k. \<lparr> a_file = p, a_fix_type = fst (fix_patterns ! k),
                         a_description = f_description (snd (fix_patterns ! k)),
                         a_count = length (hits_at k) \<rparr>)
               (filter (\<lambda>k. hits_at k \<noteq> []) [0..<length fix_patterns])"
    unfolding ff content_at_def hits_at_def replaced_at_def
    using apply_fixes_records [of fix_patterns p original]
    by (simp add: Let_def)
  show "writes (fst (fix_file st p))
           = writes st @ (if final \<noteq> original \<and> writable (files st p) then [(p, final)] else [])"
    unfolding ff by (simp add: Let_def)
  show "files (fst (fix_file st p))
           = (if final \<noteq> original \<and> writable (files st p)
              then (files st)(p := DiskFile (Some final) True) else files st)"
    unfolding ff by (simp add: Let_def)
qed

lemma example_A_fixes:
  "apply_fixes fix_patterns ''Assets/Scripts/A.cs'' ''FindObjectOfType<T>()'' [] 0
     = (''CachedReferenceManager.Get<T>()'', [example_fix], 1)"
  by code_simp

lemma example_A_final:
  "fst (apply_fixes (take (length fix_patterns) fix_patterns) ''Assets/Scripts/A.cs''
          ''FindObjectOfType<T>()'' [] 0) = ''CachedReferenceManager.Get<T>()''"
  by (simp add: example_A_fixes)

lemma example_A_records:
  "map (\<lambda>k. \<lparr> a_file = ''Assets/Scripts/A.cs'', a_fix_type = fst (fix_patterns ! k),
               a_description = f_description (snd (fix_patterns ! k)),
               a_count = length (re_findall (f_pattern (snd (fix_patterns ! k)))
                  (fst (apply_fixes (take k fix_patterns) ''Assets/Scripts/A.cs''
                          ''FindObjectOfType<T>()'' [] 0))) \<rparr>)
     (filter (\<lambda>k. re_findall (f_pattern (snd (fix_patterns ! k)))
                    (fst (apply_fixes (take k fix_patterns) ''Assets/Scripts/A.cs''
                            ''FindObjectOfType<T>()'' [] 0)) \<noteq> [])
        [0..<length fix_patterns])
   = [example_fix]"
  by code_simp

theorem fix_file_applies_rules_in_order_witness:
  "contents (files (new_fixer example_disk) ''Assets/Scripts/A.cs'') = Some ''FindObjectOfType<T>()'' \<and>
   fixes_applied (fst (fix_file (new_fixer example_disk) ''Assets/Scripts/A.cs'')) = [example_fix] \<and>
   writes (fst (fix_file (new_fixer example_disk) ''Assets/Scripts/A.cs''))
     = [(''Assets/Scripts/A.cs'', ''CachedReferenceManager.Get<T>()'')] \<and>
   contents (files (fst (fix_file (new_fixer example_disk) ''Assets/Scripts/A.cs''))
               ''Assets/Scripts/A.cs'') = Some ''CachedReferenceManager.Get<T>()''"
proof -
  have c: "contents (files (new_fixer example_disk) ''Assets/Scripts/A.cs'')
             = Some ''FindObjectOfType<T>()''"
    by (simp add: new_fixer_def example_disk_def)
  have w: "writable (files (new_fixer example_disk) ''Assets/Scripts/A.cs'')"
    by (simp add: new_fixer_def example_disk_def)
  have e: "fixes_applied (new_fixer example_disk) = []" "writes (new_fixer example_disk) = []"
    by (simp_all add: new_fixer_def)
  from fix_file_applies_rules_in_order
         [of "new_fixer example_disk" "''Assets/Scripts/A.cs''" "''FindObjectOfType<T>()''", OF c]
  show ?thesis
    unfolding example_A_records example_A_final
    using c w e by simp
qed

section \<open>The fixer: protected files\<close>

lemma apply_fixes_file:
  "f \<in> set (fst (snd (apply_fixes tbl q c [] 0))) \<Longrightarrow> a_file f = q"
  by (subst (asm) apply_fixes_records) auto

lemma fix_file_other:
  assumes "q \<noteq> p"
  shows "files (fst (fix_file st q)) p = files st p"
    and "filter (\<lambda>w. fst w = p) (writes (fst (fix_file st q))) = filter (\<lambda>w. fst w = p) (writes st)"
    and "filter (\<lambda>f. a_file f = p) (fixes_applied (fst (fix_file st q)))
           = filter (\<lambda>f. a_file f = p) (fixes_applied st)"
proof -
  have "files (fst (fix_file st q)) p = files st p \<and>
        filter (\<lambda>w. fst w = p) (writes (fst (fix_file st q))) = filter (\<lambda>w. fst w = p) (writes st) \<and>
        filter (\<lambda>f. a_file f = p) (fixes_applied (fst (fix_file st q)))
           = filter (\<lambda>f. a_file f = p) (fixes_applied st)"
  proof (cases "contents (files st q)")
    case None
    then show ?thesis by (simp add: fix_file_def)
  next
    case (Some c)
    have none: "filter (\<lambda>f. a_file f = p) (fst (snd (apply_fixes fix_patterns q c [] 0))) = []"
      using assms by (auto simp: filter_empty_conv dest: apply_fixes_file)
    show ?thesis
      unfolding fix_file_readable [OF Some] using assms none by (simp add: Let_def)
  qed
  then show "files (fst (fix_file st q)) p = files st p"
    and "filter (\<lambda>w. fst w = p) (writes (fst (fix_file st q))) = filter (\<lambda>w. fst w = p) (writes st)"
    and "filter (\<lambda>f. a_file f = p) (fixes_applied (fst (fix_file st q)))
           = filter (\<lambda>f. a_file f = p) (fixes_applied st)"
    by simp_all
qed

lemma fix_all_protected:
  assumes "path_name p \<in> set skip_files"
  shows "files (fst (fix_all st paths tot)) p = files st p \<and>
         filter (\<lambda>w. fst w = p) (writes (fst (fix_all st paths tot)))
           = filter (\<lambda>w. fst w = p) (writes st) \<and>
         filter (\<lambda>f. a_file f = p) (fixes_applied (fst (fix_all st paths tot)))
           = filter (\<lambda>f. a_file f = p) (fixes_applied st)"
proof (induction paths arbitrary: st tot)
  case Nil
  show ?case by simp
next
  case (Cons q paths)
  show ?case
  proof (cases "path_name q \<in> set skip_files")
    case True
    then show ?thesis using Cons.IH [of st tot] by simp
  next
    case False
    with assms have "q \<noteq> p" by auto
    obtain st' n where ff: "fix_file st q = (st', n)" by (cases "fix_file st q")
    from fix_file_other [OF \<open>q \<noteq> p\<close>, of st] ff
    have "files st' p = files st p"
      "filter (\<lambda>w. fst w = p) (writes st') = filter (\<lambda>w. fst w = p) (writes st)"
      "filter (\<lambda>f. a_file f = p) (fixes_applied st') = filter (\<lambda>f. a_file f = p) (fixes_applied st)"
      by simp_all
    with Cons.IH [of st' "tot + n"] False ff show ?thesis by simp
  qed
qed

lemma add_using_fixes [simp]:
  "fixes_applied (add_using_to_file set_order st e) = fixes_applied st"
  by (cases e) (simp add: add_using_to_file_def Let_def split: option.splits)

lemma add_using_other:
  "fst e \<noteq> p \<Longrightarrow>
     files (add_using_to_file set_order st e) p = files st p \<and>
     filter (\<lambda>w. fst w = p) (writes (add_using_to_file set_order st e))
       = filter (\<lambda>w. fst w = p) (writes st)"
  by (cases e) (simp add: add_using_to_file_def Let_def split: option.splits)

lemma foldl_add_using_fixes [simp]:
  "fixes_applied (foldl (add_using_to_file set_order) st es) = fixes_applied st"
  by (induction es arbitrary: st) simp_all

lemma foldl_add_using_other:
  "p \<notin> fst ` set es \<Longrightarrow>
     files (foldl (add_using_to_file set_order) st es) p = files st p \<and>
     filter (\<lambda>w. fst w = p) (writes (foldl (add_using_to_file set_order) st es))
       = filter (\<lambda>w. fst w = p) (writes st)"
proof (induction es arbitrary: st)
  case Nil
  show ?case by simp
next
  case (Cons e es)
  then have "fst e \<noteq> p" "p \<notin> fst ` set es" by auto
  from add_using_other [OF this(1), of set_order st] Cons.IH [OF this(2), of "add_using_to_file set_order st e"]
  show ?case by simp
qed

lemma add_need_keys: "fst ` set (add_need q u d) = insert q (fst ` set d)"
  by (induction q u d rule: add_need.induct) auto

lemma files_needing_using_keys:
  "fst ` set (files_needing_using tbl fxs d) \<subseteq> fst ` set d \<union> a_file ` set fxs"
proof (induction fxs arbitrary: d)
  case Nil
  show ?case by simp
next
  case (Cons f fxs)
  show ?case
    using Cons.IH [of d] Cons.IH [of "add_need (a_file f) u d" for u]
    by (auto simp: add_need_keys split: option.splits)
qed

lemma add_missing_fixes [simp]:
  "fixes_applied (add_missing_using_statements set_order st) = fixes_applied st"
  by (simp add: add_missing_using_statements_def)

lemma add_missing_other:
  assumes "p \<notin> a_file ` set (fixes_applied st)"
  shows "files (add_missing_using_statements set_order st) p = files st p \<and>
         filter (\<lambda>w. fst w = p) (writes (add_missing_using_statements set_order st))
           = filter (\<lambda>w. fst w = p) (writes st)"
proof -
  have "p \<notin> fst ` set (files_needing_using fix_patterns (fixes_applied st) [])"
    using files_needing_using_keys [of fix_patterns "fixes_applied st" "[]"] assms by auto
  from foldl_add_using_other [OF this] show ?thesis
    by (simp add: add_missing_using_statements_def)
qed

text \<open>
  Claim C5. A file whose name is in \<open>skip_files\<close>, and for which the fixer holds no entry
  before the pass, is left as it is by a pass over any list of files, whatever becomes
  of the backup: its content is the same, no write to it is carried out, and
  \<open>fixes_applied\<close> has no entry for it.
\<close>

theorem protected_file_untouched:
  assumes "path_name p \<in> set skip_files"
    and "p \<notin> a_file ` set (fixes_applied st)"
  shows "files (fst (auto_fix_all_issues set_order copy st paths)) p = files st p \<and>
         filter (\<lambda>w. fst w = p) (writes (fst (auto_fix_all_issues set_order copy st paths)))
           = filter (\<lambda>w. fst w = p) (writes st) \<and>
         filter (\<lambda>f. a_file f = p)
           (fixes_applied (fst (auto_fix_all_issues set_order copy st paths))) = []"
proof (cases "create_backup copy st")
  case (Pair st0 err)
  have same: "files st0 = files st" "writes st0 = writes st" "fixes_applied st0 = fixes_applied st"
    using Pair by (auto simp: create_backup_def split: if_splits copy_result.splits)
  from assms(2) have none: "filter (\<lambda>f. a_file f = p) (fixes_applied st) = []"
    by (auto simp: filter_empty_conv)
  show ?thesis
  proof (cases err)
    case (Some e)
    with Pair none same show ?thesis by (simp add: auto_fix_all_issues_def)
  next
    case None
    obtain st1 tot where fa: "fix_all st0 paths 0 = (st1, tot)" by (cases "fix_all st0 paths 0")
    from fix_all_protected [OF assms(1), of st0 paths 0] fa same
    have 1: "files st1 p = files st p"
      "filter (\<lambda>w. fst w = p) (writes st1) = filter (\<lambda>w. fst w = p) (writes st)"
      "filter (\<lambda>f. a_file f = p) (fixes_applied st1) = filter (\<lambda>f. a_file f = p) (fixes_applied st)"
      by simp_all
    with none have "p \<notin> a_file ` set (fixes_applied st1)"
      by (auto simp: filter_empty_conv)
    from add_missing_other [OF this, of set_order] 1 none fa Pair None show ?thesis
      by (simp add: auto_fix_all_issues_def Let_def)
  qed
qed

lemma example_protected_name:
  "path_name ''Assets/Scripts/CachedReferenceManager.cs'' \<in> set skip_files"
  by code_simp

lemma example_protected_matches:
  "length (re_findall (f_pattern (snd (hd fix_patterns))) ''FindObjectOfType<T>()'') = 1"
  by code_simp

theorem protected_file_untouched_witness:
  "path_name ''Assets/Scripts/CachedReferenceManager.cs'' \<in> set skip_files \<and>
   ''Assets/Scripts/CachedReferenceManager.cs'' \<notin> a_file ` set (fixes_applied (new_fixer example_disk)) \<and>
   length (re_findall (f_pattern (snd (hd fix_patterns))) ''FindObjectOfType<T>()'') = 1 \<and>
   files (fst (auto_fix_all_issues (\<lambda>us. us) Copied (new_fixer example_disk)
                 [''Assets/Scripts/A.cs'', ''Assets/Scripts/CachedReferenceManager.cs'']))
      ''Assets/Scripts/CachedReferenceManager.cs'' = DiskFile (Some ''FindObjectOfType<T>()'') True \<and>
   filter (\<lambda>w. fst w = ''Assets/Scripts/CachedReferenceManager.cs'')
      (writes (fst (auto_fix_all_issues (\<lambda>us. us) Copied (new_fixer example_disk)
                 [''Assets/Scripts/A.cs'', ''Assets/Scripts/CachedReferenceManager.cs'']))) = [] \<and>
   filter (\<lambda>f. a_file f = ''Assets/Scripts/CachedReferenceManager.cs'')
      (fixes_applied (fst (auto_fix_all_issues (\<lambda>us. us) Copied (new_fixer example_disk)
                 [''Assets/Scripts/A.cs'', ''Assets/Scripts/CachedReferenceManager.cs'']))) = []"
proof -
  have fresh: "''Assets/Scripts/CachedReferenceManager.cs''
                 \<notin> a_file ` set (fixes_applied (new_fixer example_disk))"
    by (simp add: new_fixer_def)
  have start: "files (new_fixer example_disk) ''Assets/Scripts/CachedReferenceManager.cs''
                 = DiskFile (Some ''FindObjectOfType<T>()'') True"
    "writes (new_fixer example_disk) = []"
    by (simp_all add: new_fixer_def example_disk_def)
  from protected_file_untouched [OF example_protected_name fresh, of "\<lambda>us. us" Copied
         "[''Assets/Scripts/A.cs'', ''Assets/Scripts/CachedReferenceManager.cs'']"]
  show ?thesis
    using example_protected_name fresh example_protected_matches start by simp
qed

section \<open>The fixer: the using statements of one file\<close>

lemma add_using_to_file_missing:
  assumes "contents (files st p) = Some c"
    and "filter (\<lambda>u. \<not> contains c u) (set_order us) = missing"
    and "missing \<noteq> []"
    and "join_lines (insert_statements (split_lines c) (find_insert_index (split_lines c) 0 0) missing)
           = new_content"
  shows "add_using_to_file set_order st (p, us)
     = (if writable (files st p)
        then st\<lparr> files := (files st)(p := DiskFile (Some new_content) True),
                 writes := writes st @ [(p, new_content)] \<rparr>
        else st)"
  using assms(1,3) unfolding add_using_to_file_def assms(2) [symmetric] assms(4) [symmetric]
  by (simp add: Let_def)

lemma add_using_to_file_present:
  assumes "contents (files st p) = Some c"
    and "\<forall>u \<in> set (set_order us). contains c u"
  shows "add_using_to_file set_order st (p, us) = st"
  using assms by (simp add: add_using_to_file_def Let_def filter_empty_conv)

lemma add_using_to_file_unreadable:
  "contents (files st p) = None \<Longrightarrow> add_using_to_file set_order st (p, us) = st"
  by (simp add: add_using_to_file_def)

lemma one_element_order:
  assumes "\<forall>us. distinct us \<longrightarrow> distinct (set_order us) \<and> set (set_order us) = set us"
  shows "set_order [u] = [u]"
proof -
  from assms have d: "distinct (set_order [u])" and s: "set (set_order [u]) = {u}"
    by (metis distinct.simps(2) distinct_singleton empty_set list.simps(15))+
  show ?thesis
  proof (cases "set_order [u]")
    case Nil
    with s show ?thesis by simp
  next
    case (Cons x xs)
    with s have "x = u" by auto
    moreover have "xs = []"
    proof (cases xs)
      case Nil
      then show ?thesis .
    next
      case (Cons y ys)
      with \<open>set_order [u] = x # xs\<close> s have "y = u" by auto
      with \<open>x = u\<close> Cons \<open>set_order [u] = x # xs\<close> d show ?thesis by simp
    qed
    ultimately show ?thesis using Cons by simp
  qed
qed

lemma example_need:
  "files_needing_using fix_patterns [example_fix] []
     = [(''Assets/Scripts/A.cs'', [''using VRBoxingGame.Core;''])]"
  by code_simp

lemma example_fixed_lacks: "\<not> contains example_fixed ''using VRBoxingGame.Core;''"
  by code_simp

lemma example_patch:
  "join_lines (insert_statements (split_lines example_fixed)
                 (find_insert_index (split_lines example_fixed) 0 0)
                 [''using VRBoxingGame.Core;''])
     = example_patched"
  by code_simp

lemma example_patched_has: "contains example_patched ''using VRBoxingGame.Core;''"
  by code_simp

lemma example_add_using:
  assumes "\<forall>us. distinct us \<longrightarrow> distinct (set_order us) \<and> set (set_order us) = set us"
  shows "add_missing_using_statements set_order example_after_fix = example_after_pass"
proof -
  have need: "files_needing_using fix_patterns (fixes_applied example_after_fix) []
                = [(''Assets/Scripts/A.cs'', [''using VRBoxingGame.Core;''])]"
    by (simp only: example_after_fix_def fixer.select_convs example_need)
  have c: "files example_after_fix ''Assets/Scripts/A.cs'' = DiskFile (Some example_fixed) True"
    by (simp add: example_after_fix_def)
  have m: "filter (\<lambda>u. \<not> contains example_fixed u) (set_order [''using VRBoxingGame.Core;''])
             = [''using VRBoxingGame.Core;'']"
    using example_fixed_lacks by (simp add: one_element_order [OF assms])
  have "add_using_to_file set_order example_after_fix
          (''Assets/Scripts/A.cs'', [''using VRBoxingGame.Core;'']) = example_after_pass"
    using add_using_to_file_missing [of example_after_fix "''Assets/Scripts/A.cs''" example_fixed
            set_order "[''using VRBoxingGame.Core;'']", OF _ m _ example_patch]
    by (simp add: example_after_fix_def example_after_pass_def)
  then show ?thesis
    unfolding add_missing_using_statements_def need by simp
qed

section \<open>Case: the scanner and the fixer disagree\<close>

lemma example_D_issues:
  "check_lines validation_patterns ''Assets/Scripts/D.cs'' 1 (split_lines ''findobjectoftype<t>()'') []
     = [example_lower_finding]"
  by code_simp

lemma example_D_analysis:
  "analyze_file example_disk ''Assets/Scripts/D.cs'' = ([example_lower_finding], [])"
proof -
  have "contents (example_disk ''Assets/Scripts/D.cs'') = Some ''findobjectoftype<t>()''"
    by (simp add: example_disk_def)
  then show ?thesis
    by (simp only: analyze_file_def option.case example_D_issues)
qed

lemma example_D_fixes:
  "apply_fixes fix_patterns ''Assets/Scripts/D.cs'' ''findobjectoftype<t>()'' [] 0
     = (''findobjectoftype<t>()'', [], 0)"
  by code_simp

lemma example_D_fix:
  "fix_file (new_fixer example_disk) ''Assets/Scripts/D.cs'' = (new_fixer example_disk, 0)"
proof -
  have c: "contents (files (new_fixer example_disk) ''Assets/Scripts/D.cs'')
             = Some ''findobjectoftype<t>()''"
    by (simp add: new_fixer_def example_disk_def)
  show ?thesis
    unfolding fix_file_readable [OF c] example_D_fixes by (simp add: new_fixer_def)
qed

lemma example_D_not_protected: "path_name ''Assets/Scripts/D.cs'' \<notin> set skip_files"
  by code_simp

lemma example_D_search:
  "re_search True (p_pattern (snd (hd validation_patterns))) ''findobjectoftype<t>()''"
  "\<not> re_search False (p_pattern (snd (hd validation_patterns))) ''findobjectoftype<t>()''"
  "list_all (\<lambda>e. re_findall (f_pattern (snd e)) ''findobjectoftype<t>()'' = []) fix_patterns"
  by code_simp+

text \<open>
  Claim C10. The scanner searches with \<open>re.IGNORECASE\<close>, the fixer without. The file
  \<open>D.cs\<close> of the example holds \<open>findobjectoftype<t>()\<close>: its analysis reports one issue,
  marked fixable, found by a pattern that does not match the line when case counts; no
  fix pattern matches the line, and a pass of the fixer over the file leaves the disk
  and the fixer as they were, but for the backup that the pass takes first, with no
  entry in \<open>fixes_applied\<close>; a pass whose backup fails ends there.
\<close>

theorem lower_case_reported_but_not_fixed:
  "contents (example_disk ''Assets/Scripts/D.cs'') = Some ''findobjectoftype<t>()'' \<and>
   analyze_file example_disk ''Assets/Scripts/D.cs'' = ([example_lower_finding], []) \<and>
   can_auto_fix example_lower_finding \<and>
   re_search True (p_pattern (snd (hd validation_patterns))) ''findobjectoftype<t>()'' \<and>
   \<not> re_search False (p_pattern (snd (hd validation_patterns))) ''findobjectoftype<t>()'' \<and>
   list_all (\<lambda>e. re_findall (f_pattern (snd e)) ''findobjectoftype<t>()'' = []) fix_patterns \<and>
   fix_file (new_fixer example_disk) ''Assets/Scripts/D.cs'' = (new_fixer example_disk, 0) \<and>
   auto_fix_all_issues set_order Copied (new_fixer example_disk) [''Assets/Scripts/D.cs'']
     = ((new_fixer example_disk)\<lparr> backed_up := True \<rparr>,
        Inr \<lparr> total_fixes_applied = 0, files_modified = 0, fixes_by_type = [], errors = [] \<rparr>) \<and>
   auto_fix_all_issues set_order (CopyRaised created) (new_fixer example_disk)
       [''Assets/Scripts/D.cs'']
     = ((new_fixer example_disk)\<lparr> backed_up := created \<rparr>, Inl CopyError) \<and>
   fixes_applied (new_fixer example_disk) = []"
proof -
  have c: "contents (files ((new_fixer example_disk)\<lparr> backed_up := True \<rparr>) ''Assets/Scripts/D.cs'')
             = Some ''findobjectoftype<t>()''"
    by (simp add: new_fixer_def example_disk_def)
  have f: "fix_file ((new_fixer example_disk)\<lparr> backed_up := True \<rparr>) ''Assets/Scripts/D.cs''
             = ((new_fixer example_disk)\<lparr> backed_up := True \<rparr>, 0)"
    unfolding fix_file_readable [OF c] example_D_fixes by (simp add: new_fixer_def)
  have b: "create_backup Copied (new_fixer example_disk)
             = ((new_fixer example_disk)\<lparr> backed_up := True \<rparr>, None)"
    "create_backup (CopyRaised created) (new_fixer example_disk)
             = ((new_fixer example_disk)\<lparr> backed_up := created \<rparr>, Some CopyError)"
    by (simp_all add: create_backup_def new_fixer_def)
  have 1: "auto_fix_all_issues set_order Copied (new_fixer example_disk) [''Assets/Scripts/D.cs'']
     = ((new_fixer example_disk)\<lparr> backed_up := True \<rparr>,
        Inr \<lparr> total_fixes_applied = 0, files_modified = 0, fixes_by_type = [], errors = [] \<rparr>)"
    by (simp add: auto_fix_all_issues_def b example_D_not_protected f
          add_missing_using_statements_def)
       (simp add: new_fixer_def)
  have 5: "auto_fix_all_issues set_order (CopyRaised created) (new_fixer example_disk)
       [''Assets/Scripts/D.cs'']
     = ((new_fixer example_disk)\<lparr> backed_up := created \<rparr>, Inl CopyError)"
    by (simp add: auto_fix_all_issues_def b)
  have 2: "contents (example_disk ''Assets/Scripts/D.cs'') = Some ''findobjectoftype<t>()''"
    by (simp add: example_disk_def)
  have 3: "can_auto_fix example_lower_finding" by (simp add: example_lower_finding_def)
  have 4: "fixes_applied (new_fixer example_disk) = []" by (simp add: new_fixer_def)
  from 1 2 3 4 5 example_D_analysis example_D_search example_D_fix show ?thesis by blast
qed

theorem lower_case_reported_but_not_fixed_witness:
  "analyze_file example_disk ''Assets/Scripts/D.cs'' = ([example_lower_finding], []) \<and>
   can_auto_fix example_lower_finding \<and>
   fst (auto_fix_all_issues (\<lambda>us. us) Copied (new_fixer example_disk) [''Assets/Scripts/D.cs''])
     = (new_fixer example_disk)\<lparr> backed_up := True \<rparr>"
  using lower_case_reported_but_not_fixed [of "\<lambda>us. us"] by simp

section \<open>The scan: thread schedules and directory walks\<close>

text \<open>What the futures hold while the workers run: nothing, or the result of their task.\<close>

lemma run_workers_keeps:
  "futures pl i \<noteq> None \<Longrightarrow> futures (run_workers proj tasks schedule pl) i = futures pl i"
  by (induction schedule arbitrary: pl) (auto split: prod.splits)

lemma run_workers_runs:
  "i \<in> set schedule \<Longrightarrow> i < length tasks \<Longrightarrow>
     futures (run_workers proj tasks schedule pl) i \<noteq> None"
proof (induction schedule arbitrary: pl)
  case Nil
  then show ?case by simp
next
  case (Cons j schedule)
  show ?case
  proof (cases "futures pl i = None")
    case False
    from run_workers_keeps [OF False, of proj tasks "j # schedule"] False show ?thesis
      by simp
  next
    case True
    obtain result out where r: "run_task proj (tasks ! j) = (result, out)"
      by (cases "run_task proj (tasks ! j)")
    let ?pl = "pl\<lparr> futures := (futures pl)(j \<mapsto> result), console := console pl @ out \<rparr>"
    show ?thesis
    proof (cases "i = j")
      case True
      have now: "futures ?pl i \<noteq> None" using True by simp
      have "run_workers proj tasks (j # schedule) pl = run_workers proj tasks schedule ?pl"
        using True \<open>futures pl i = None\<close> Cons.prems(2) r by simp
      with run_workers_keeps [OF now, of proj tasks schedule] now show ?thesis by simp
    next
      case False
      with Cons.prems have "i \<in> set schedule" by simp
      from Cons.IH [OF this Cons.prems(2)] show ?thesis
        by (simp add: r)
    qed
  qed
qed

lemma run_workers_results:
  "\<forall>i v. futures pl i = Some v \<longrightarrow> i < length tasks \<and> v = fst (run_task proj (tasks ! i)) \<Longrightarrow>
   futures (run_workers proj tasks schedule pl) i = Some v \<Longrightarrow>
     i < length tasks \<and> v = fst (run_task proj (tasks ! i))"
proof (induction schedule arbitrary: pl)
  case Nil
  then show ?case by simp
next
  case (Cons j schedule)
  show ?case
  proof (cases "j < length tasks \<and> futures pl j = None")
    case True
    obtain result out where r: "run_task proj (tasks ! j) = (result, out)"
      by (cases "run_task proj (tasks ! j)")
    let ?pl = "pl\<lparr> futures := (futures pl)(j \<mapsto> result), console := console pl @ out \<rparr>"
    have inv: "\<forall>i v. futures ?pl i = Some v \<longrightarrow>
                 i < length tasks \<and> v = fst (run_task proj (tasks ! i))"
      using Cons.prems(1) True r by simp
    have "futures (run_workers proj tasks schedule ?pl) i = Some v"
      using Cons.prems(2) True r by simp
    from Cons.IH [OF inv this] show ?thesis .
  next
    case False
    then have "futures (run_workers proj tasks schedule pl) i = Some v"
      using Cons.prems(2) by auto
    from Cons.IH [OF Cons.prems(1) this] show ?thesis .
  qed
qed

lemma run_workers_all:
  assumes "{0..<length tasks} \<subseteq> set schedule"
  shows "map (futures (run_workers proj tasks schedule \<lparr> futures = (\<lambda>i. None), console = [] \<rparr>))
           [0..<length tasks]
         = map (\<lambda>t. Some (fst (run_task proj t))) tasks"
proof (rule nth_equalityI)
  show "length (map (futures (run_workers proj tasks schedule \<lparr> futures = (\<lambda>i. None), console = [] \<rparr>))
           [0..<length tasks]) = length (map (\<lambda>t. Some (fst (run_task proj t))) tasks)"
    by simp
next
  fix i
  assume "i < length (map (futures (run_workers proj tasks schedule \<lparr> futures = (\<lambda>i. None), console = [] \<rparr>))
           [0..<length tasks])"
  then have i: "i < length tasks" by simp
  with assms have "i \<in> set schedule" by auto
  from run_workers_runs [OF this i, of proj "\<lparr> futures = (\<lambda>i. None), console = [] \<rparr>"]
  obtain v where v: "futures (run_workers proj tasks schedule \<lparr> futures = (\<lambda>i. None), console = [] \<rparr>) i
                       = Some v"
    by auto
  have "i < length tasks \<and> v = fst (run_task proj (tasks ! i))"
    by (rule run_workers_results [OF _ v]) simp
  with v i show "map (futures (run_workers proj tasks schedule \<lparr> futures = (\<lambda>i. None), console = [] \<rparr>))
           [0..<length tasks] ! i = map (\<lambda>t. Some (fst (run_task proj t))) tasks ! i"
    by simp
qed

text \<open>Reading the futures of the file tasks, then the rest.\<close>

lemma read_futures_files:
  "read_futures (map (\<lambda>t. Some (fst (run_task proj t))) (map FileTask ps) @ rest) issues
     = read_futures rest (issues @ concat (map (\<lambda>p. fst (analyze_file (disk proj) p)) ps))"
  by (induction ps arbitrary: issues) (auto split: prod.splits)

lemma read_futures_submitted:
  "read_futures (map (\<lambda>t. Some (fst (run_task proj t))) (submitted proj)) []
     = (case analyze_project_structure (package_manifest proj) of
          Inl e \<Rightarrow> Some (Inl e)
        | Inr project_issues \<Rightarrow>
            Some (Inr (concat (map (\<lambda>p. fst (analyze_file (disk proj) p)) (cs_files proj))
                       @ project_issues @ analyze_scenes (scenes proj))))"
  using read_futures_files [of proj "cs_files proj"
          "[Some (fst (run_task proj ProjectTask)), Some (fst (run_task proj SceneTask))]" "[]"]
  by (simp add: submitted_def split: sum.splits)

text \<open>A scan under a schedule that lets every task complete: what it returns.\<close>

lemma scan_with_schedule_result:
  assumes "{0..<length (submitted proj)} \<subseteq> set schedule"
  shows "\<exists>printed.
     scan_with_schedule proj schedule t0 t1
       = (case analyze_project_structure (package_manifest proj) of
            Inl e \<Rightarrow> Some (Inl e)
          | Inr project_issues \<Rightarrow>
              Some (Inr (generate_report
                           (concat (map (\<lambda>p. fst (analyze_file (disk proj) p)) (cs_files proj))
                              @ project_issues @ analyze_scenes (scenes proj))
                           (t1 - t0), printed)))"
  unfolding scan_with_schedule_def Let_def run_workers_all [OF assms] read_futures_submitted
  by (auto split: sum.splits)

text \<open>The counts of a report depend on the issues as a multiset.\<close>

lemma map_of_bump:
  "map_of (bump k d) = (map_of d)(k \<mapsto> (case map_of d k of None \<Rightarrow> 1 | Some v \<Rightarrow> v + 1))"
  by (induction d) (auto simp: fun_eq_iff)

lemma map_of_count_by_category:
  "map_of (count_by_category issues d) c
     = (let n = length (filter (\<lambda>i. category i = c) issues)
        in case map_of d c of
             None \<Rightarrow> if n = 0 then None else Some n
           | Some v \<Rightarrow> Some (v + n))"
  by (induction issues arbitrary: d) (auto simp: map_of_bump Let_def split: option.splits)

lemma length_filter_mset:
  assumes "mset xs = mset ys"
  shows "length (filter P xs) = length (filter P ys)"
proof -
  have "mset (filter P xs) = mset (filter P ys)" using assms by simp
  then show ?thesis by (rule mset_eq_length)
qed

lemma mset_concat_map:
  "mset xs = mset ys \<Longrightarrow> mset (concat (map f xs)) = mset (concat (map f ys))"
proof -
  assume h: "mset xs = mset ys"
  have "\<And>zs. mset (concat (map f zs)) = sum_mset (image_mset (\<lambda>x. mset (f x)) (mset zs))"
    by (induct_tac zs) simp_all
  with h show ?thesis by simp
qed

lemma generate_report_mset:
  assumes "mset issues' = mset issues"
  shows "mset (all_issues (generate_report issues' t')) = mset (all_issues (generate_report issues t)) \<and>
         total_issues (generate_report issues' t') = total_issues (generate_report issues t) \<and>
         critical_issues (generate_report issues' t') = critical_issues (generate_report issues t) \<and>
         warning_issues (generate_report issues' t') = warning_issues (generate_report issues t) \<and>
         info_issues (generate_report issues' t') = info_issues (generate_report issues t) \<and>
         map_of (issues_by_category (generate_report issues' t'))
           = map_of (issues_by_category (generate_report issues t)) \<and>
         is_deployment_ready (generate_report issues' t')
           = is_deployment_ready (generate_report issues t)"
proof -
  have len: "length issues' = length issues" using assms by (rule mset_eq_length)
  have f: "\<And>P. length (filter P issues') = length (filter P issues)"
    using assms by (rule length_filter_mset)
  have m: "map_of (count_by_category issues' []) = map_of (count_by_category issues [])"
    by (rule ext) (simp add: map_of_count_by_category f)
  have e: "\<And>P. (filter P issues' = []) = (filter P issues = [])"
    using f by (metis length_0_conv)
  from assms len f m e show ?thesis by (simp add: generate_report_def Let_def)
qed

lemma sequential_result:
  "run_comprehensive_validation proj t0 t1
     = (case analyze_project_structure (package_manifest proj) of
          Inl e \<Rightarrow> Inl e
        | Inr project_issues \<Rightarrow>
            Inr (generate_report
                   (concat (map (\<lambda>p. fst (analyze_file (disk proj) p)) (cs_files proj))
                      @ project_issues @ analyze_scenes (scenes proj))
                   (t1 - t0),
                 concat (map (\<lambda>p. snd (analyze_file (disk proj) p)) (cs_files proj))))"
  by (simp add: run_comprehensive_validation_def gather_result split: sum.splits)

text \<open>
  Claim C8. Take two scans of the same files with the same content, the same manifest
  and the same scenes, each under a schedule of the worker threads that lets every
  task complete, with any clock readings; the directory walks may list the files in
  different orders. Then both scans raise the same error, or both return a report. The
  two reports hold the same issues up to their order, the same total, the same counts
  by severity and by category, and the same verdict; the first is the report of the
  scan that runs the tasks one after the other. When the two walks list the files in
  the same order, the issues come in the same order, and the reports are equal but for
  the field \<open>validation_time\<close>.
\<close>

theorem scans_agree_up_to_walk_order:
  assumes "disk proj' = disk proj"
    and "package_manifest proj' = package_manifest proj"
    and "scenes proj' = scenes proj"
    and "mset (cs_files proj') = mset (cs_files proj)"
    and "{0..<length (submitted proj)} \<subseteq> set schedule"
    and "{0..<length (submitted proj')} \<subseteq> set schedule'"
  shows "(\<exists>e. scan_with_schedule proj schedule t0 t1 = Some (Inl e) \<and>
              scan_with_schedule proj' schedule' t0' t1' = Some (Inl e) \<and>
              run_comprehensive_validation proj t0 t1 = Inl e) \<or>
         (\<exists>report report' printed printed' listed.
            scan_with_schedule proj schedule t0 t1 = Some (Inr (report, printed)) \<and>
            scan_with_schedule proj' schedule' t0' t1' = Some (Inr (report', printed')) \<and>
            run_comprehensive_validation proj t0 t1 = Inr (report, listed) \<and>
            mset (all_issues report') = mset (all_issues report) \<and>
            total_issues report' = total_issues report \<and>
            critical_issues report' = critical_issues report \<and>
            warning_issues report' = warning_issues report \<and>
            info_issues report' = info_issues report \<and>
            map_of (issues_by_category report') = map_of (issues_by_category report) \<and>
            is_deployment_ready report' = is_deployment_ready report \<and>
            (cs_files proj' = cs_files proj \<longrightarrow>
               all_issues report' = all_issues report \<and>
               issues_by_category report' = issues_by_category report \<and>
               report' = report\<lparr> validation_time := t1' - t0' \<rparr>))"
proof (cases "analyze_project_structure (package_manifest proj)")
  case (Inl e)
  from scan_with_schedule_result [OF assms(5), of t0 t1]
       scan_with_schedule_result [OF assms(6), of t0' t1'] Inl assms(2)
  show ?thesis by (auto simp: sequential_result)
next
  case (Inr project_issues)
  let ?found = "\<lambda>proj. concat (map (\<lambda>p. fst (analyze_file (disk proj) p)) (cs_files proj))
                        @ project_issues @ analyze_scenes (scenes proj)"
  from scan_with_schedule_result [OF assms(5), of t0 t1] Inr obtain printed where
    1: "scan_with_schedule proj schedule t0 t1
          = Some (Inr (generate_report (?found proj) (t1 - t0), printed))"
    by auto
  from scan_with_schedule_result [OF assms(6), of t0' t1'] Inr assms(2) obtain printed' where
    2: "scan_with_schedule proj' schedule' t0' t1'
          = Some (Inr (generate_report (?found proj') (t1' - t0'), printed'))"
    by auto
  have 3: "run_comprehensive_validation proj t0 t1
          = Inr (generate_report (?found proj) (t1 - t0),
                 concat (map (\<lambda>p. snd (analyze_file (disk proj) p)) (cs_files proj)))"
    using Inr by (simp add: sequential_result)
  have "mset (?found proj') = mset (?found proj)"
    using mset_concat_map [OF assms(4), of "\<lambda>p. fst (analyze_file (disk proj) p)"] assms(1,3)
    by simp
  note 4 = generate_report_mset [OF this, of "t1' - t0'" "t1 - t0"]
  have 5: "cs_files proj' = cs_files proj \<Longrightarrow>
             generate_report (?found proj') (t1' - t0')
               = (generate_report (?found proj) (t1 - t0))\<lparr> validation_time := t1' - t0' \<rparr>"
    using assms(1,3) by (simp add: generate_report_def Let_def)
  have 6: "cs_files proj' = cs_files proj \<Longrightarrow>
             all_issues (generate_report (?found proj') (t1' - t0'))
               = all_issues (generate_report (?found proj) (t1 - t0)) \<and>
             issues_by_category (generate_report (?found proj') (t1' - t0'))
               = issues_by_category (generate_report (?found proj) (t1 - t0))"
    using assms(1,3) by (simp add: generate_report_def Let_def)
  show ?thesis
    apply (rule disjI2)
    apply (rule exI [of _ "generate_report (?found proj) (t1 - t0)"])
    apply (rule exI [of _ "generate_report (?found proj') (t1' - t0')"])
    apply (rule exI [of _ printed])
    apply (rule exI [of _ printed'])
    apply (rule exI [of _ "concat (map (\<lambda>p. snd (analyze_file (disk proj) p)) (cs_files proj))"])
    using 1 2 3 4 5 6 apply blast
    done
qed

lemma example_scan:
  "scan_with_schedule example_walk [0, 1, 2, 3] 0 1
     = Some (Inr (generate_report [example_finding, example_lower_finding] 1, []))"
  "scan_with_schedule example_walk_reversed [0, 1, 2, 3] 0 1
     = Some (Inr (generate_report [example_lower_finding, example_finding] 1, []))"
  by (simp_all add: scan_with_schedule_def submitted_def example_walk_def
        example_walk_reversed_def Let_def upt_rec example_A_analysis example_D_analysis
        analyze_project_structure_def analyze_scenes_def)

lemma example_findings_differ: "example_finding \<noteq> example_lower_finding"
  by (simp add: example_finding_def example_lower_finding_def)

theorem walk_order_changes_report:
  "disk example_walk_reversed = disk example_walk \<and>
   set (cs_files example_walk_reversed) = set (cs_files example_walk) \<and>
   scan_with_schedule example_walk [0, 1, 2, 3] 0 1
     = Some (Inr (generate_report [example_finding, example_lower_finding] 1, [])) \<and>
   scan_with_schedule example_walk_reversed [0, 1, 2, 3] 0 1
     = Some (Inr (generate_report [example_lower_finding, example_finding] 1, [])) \<and>
   all_issues (generate_report [example_finding, example_lower_finding] 1)
     \<noteq> all_issues (generate_report [example_lower_finding, example_finding] 1)"
proof -
  have "all_issues (generate_report [example_finding, example_lower_finding] 1)
     \<noteq> all_issues (generate_report [example_lower_finding, example_finding] 1)"
    using example_findings_differ by (simp add: generate_report_def Let_def)
  moreover have "disk example_walk_reversed = disk example_walk"
    "set (cs_files example_walk_reversed) = set (cs_files example_walk)"
    by (auto simp: example_walk_def example_walk_reversed_def)
  ultimately show ?thesis using example_scan by simp
qed

theorem scans_agree_up_to_walk_order_witness:
  "mset (cs_files example_walk_reversed) = mset (cs_files example_walk) \<and>
   scan_with_schedule example_walk [0, 1, 2, 3] 0 1
     = Some (Inr (generate_report [example_finding, example_lower_finding] 1, [])) \<and>
   (\<exists>report' printed'.
      scan_with_schedule example_walk_reversed [3, 1, 0, 2, 1] 5 9 = Some (Inr (report', printed')) \<and>
      mset (all_issues report') = {#example_finding, example_lower_finding#} \<and>
      total_issues report' = 2 \<and>
      critical_issues report' = 2 \<and>
      \<not> is_deployment_ready report') \<and>
   (\<exists>printed'.
      scan_with_schedule example_walk [3, 2, 1, 0] 5 9
        = Some (Inr ((generate_report [example_finding, example_lower_finding] 1)
                       \<lparr> validation_time := 4 \<rparr>, printed')))"
proof -
  have h: "disk example_walk_reversed = disk example_walk"
    "package_manifest example_walk_reversed = package_manifest example_walk"
    "scenes example_walk_reversed = scenes example_walk"
    "mset (cs_files example_walk_reversed) = mset (cs_files example_walk)"
    by (simp_all add: example_walk_def example_walk_reversed_def)
  have s: "{0..<length (submitted example_walk)} \<subseteq> set [0, 1, 2, 3]"
    "{0..<length (submitted example_walk_reversed)} \<subseteq> set [3, 1, 0, 2, 1]"
    by (auto simp: submitted_def example_walk_def example_walk_reversed_def)
  have r: "all_issues (generate_report [example_finding, example_lower_finding] 1)
             = [example_finding, example_lower_finding]"
    "total_issues (generate_report [example_finding, example_lower_finding] 1) = 2"
    "critical_issues (generate_report [example_finding, example_lower_finding] 1) = 2"
    "\<not> is_deployment_ready (generate_report [example_finding, example_lower_finding] 1)"
    by (simp_all add: generate_report_def Let_def example_finding_def example_lower_finding_def)
  have s': "{0..<length (submitted example_walk)} \<subseteq> set [3, 2, 1, 0]"
    by (auto simp: submitted_def example_walk_def)
  from scans_agree_up_to_walk_order [OF h s, of 0 1 5 9] example_scan(1) r h(4)
  have a: "\<exists>report' printed'.
      scan_with_schedule example_walk_reversed [3, 1, 0, 2, 1] 5 9 = Some (Inr (report', printed')) \<and>
      mset (all_issues report') = {#example_finding, example_lower_finding#} \<and>
      total_issues report' = 2 \<and>
      critical_issues report' = 2 \<and>
      \<not> is_deployment_ready report'"
    by auto
  from scans_agree_up_to_walk_order [OF refl refl refl refl s(1) s', of 0 1 5 9] example_scan(1)
  have b: "\<exists>printed'.
      scan_with_schedule example_walk [3, 2, 1, 0] 5 9
        = Some (Inr ((generate_report [example_finding, example_lower_finding] 1)
                       \<lparr> validation_time := 4 \<rparr>, printed'))"
    by auto
  from a b example_scan(1) h(4) show ?thesis by blast
qed

section \<open>The fixer: adding the using statements again\<close>

subsection \<open>Substrings and lines\<close>

lemma startswith_iff: "startswith t u \<longleftrightarrow> (\<exists>b. t = u @ b)"
  by (induction t u rule: startswith.induct) auto

lemma tails_self: "t \<in> set (tails t)"
  by (cases t) simp_all

lemma tails_iff: "t \<in> set (tails s) \<longleftrightarrow> (\<exists>a. s = a @ t)"
proof (induction s)
  case Nil
  show ?case by auto
next
  case (Cons c s)
  show ?case
  proof
    assume "t \<in> set (tails (c # s))"
    then consider "t = c # s" | "t \<in> set (tails s)" by auto
    then show "\<exists>a. c # s = a @ t"
    proof cases
      case 1
      then show ?thesis by (intro exI [of _ "[]"]) simp
    next
      case 2
      with Cons.IH obtain a where "s = a @ t" by blast
      then show ?thesis by (intro exI [of _ "c # a"]) simp
    qed
  next
    assume "\<exists>a. c # s = a @ t"
    then obtain a where a: "c # s = a @ t" by blast
    show "t \<in> set (tails (c # s))"
    proof (cases a)
      case Nil
      with a have "t = c # s" by simp
      then show ?thesis using tails_self [of "c # s"] by simp
    next
      case (Cons x xs)
      with a have "s = xs @ t" by simp
      with Cons.IH show ?thesis by auto
    qed
  qed
qed

lemma contains_iff: "contains s u \<longleftrightarrow> (\<exists>a b. s = a @ u @ b)"
proof
  assume "contains s u"
  then obtain t where "t \<in> set (tails s)" "startswith t u"
    by (auto simp: contains_def list_ex_iff)
  then obtain a b where "s = a @ t" "t = u @ b"
    by (auto simp: startswith_iff tails_iff)
  then show "\<exists>a b. s = a @ u @ b" by blast
next
  assume "\<exists>a b. s = a @ u @ b"
  then obtain a b where "s = a @ u @ b" by blast
  then have "u @ b \<in> set (tails s)" "startswith (u @ b) u"
    by (auto simp: startswith_iff tails_iff)
  then show "contains s u"
    by (auto simp: contains_def list_ex_iff)
qed

lemma contains_self: "contains u u"
  unfolding contains_iff by (intro exI [of _ "[]"]) simp

lemma contains_Cons: "contains s u \<Longrightarrow> contains (c # s) u"
  unfolding contains_iff by (metis append_Cons)

lemma split_lines_nonempty: "split_lines s \<noteq> []"
  by (induction s) (auto split: list.splits)

lemma first_line_prefix:
  "CHR 0x0A \<notin> set u \<Longrightarrow> startswith s u \<Longrightarrow> startswith (hd (split_lines s)) u"
proof (induction s u rule: startswith.induct)
  case (1 s)
  show ?case by simp
next
  case (2 p ps)
  then show ?case by simp
next
  case (3 c cs p ps)
  then have "c = p" "c \<noteq> CHR 0x0A" "startswith cs ps" "CHR 0x0A \<notin> set ps" by auto
  with 3 have "startswith (hd (split_lines cs)) ps" by simp
  with \<open>c = p\<close> \<open>c \<noteq> CHR 0x0A\<close> show ?case
    by (cases "split_lines cs") (simp_all add: split_lines_nonempty)
qed

lemma startswith_contains: "startswith s u \<Longrightarrow> contains s u"
  unfolding contains_iff startswith_iff by (metis append_Nil)

lemma contains_in_line:
  "contains s u \<Longrightarrow> CHR 0x0A \<notin> set u \<Longrightarrow> \<exists>l \<in> set (split_lines s). contains l u"
proof (induction s)
  case Nil
  then have "u = []" by (simp add: contains_iff)
  then show ?case by (simp add: contains_self)
next
  case (Cons c s)
  obtain l ls where sl: "split_lines s = l # ls"
    using split_lines_nonempty [of s] by (cases "split_lines s") auto
  from Cons.prems(1) consider "startswith (c # s) u" | "contains s u"
    by (auto simp: contains_def)
  then show ?case
  proof cases
    case 1
    from first_line_prefix [OF Cons.prems(2) 1]
    have "contains (hd (split_lines (c # s))) u" by (rule startswith_contains)
    moreover have "hd (split_lines (c # s)) \<in> set (split_lines (c # s))"
      using split_lines_nonempty [of "c # s"] by simp
    ultimately show ?thesis by blast
  next
    case 2
    from Cons.IH [OF 2 Cons.prems(2)] obtain m where m: "m \<in> set (split_lines s)" "contains m u"
      by blast
    show ?thesis
    proof (cases "c = CHR 0x0A")
      case True
      with m show ?thesis by auto
    next
      case False
      show ?thesis
      proof (cases "m = l")
        case True
        with m(2) have "contains (c # l) u" by (simp add: contains_Cons)
        with False sl show ?thesis by simp
      next
        case False
        with m(1) sl have "m \<in> set ls" by simp
        with \<open>c \<noteq> CHR 0x0A\<close> sl m(2) show ?thesis by auto
      qed
    qed
  qed
qed

lemma line_in_join: "l \<in> set ls \<Longrightarrow> \<exists>a b. join_lines ls = a @ l @ b"
proof (induction ls rule: join_lines.induct)
  case 1
  then show ?case by simp
next
  case (2 m)
  then show ?case by (intro exI [of _ "[]"]) simp
next
  case (3 m n ls)
  show ?case
  proof (cases "l = m")
    case True
    then show ?thesis by (intro exI [of _ "[]"] exI [of _ "CHR 0x0A # join_lines (n # ls)"]) simp
  next
    case False
    with "3.prems" have "l \<in> set (n # ls)" by simp
    from "3.IH" [OF this] obtain a b where "join_lines (n # ls) = a @ l @ b" by blast
    then show ?thesis
      by (intro exI [of _ "m @ CHR 0x0A # a"] exI [of _ b]) simp
  qed
qed

lemma contains_join: "l \<in> set ls \<Longrightarrow> contains l u \<Longrightarrow> contains (join_lines ls) u"
proof -
  assume "l \<in> set ls" "contains l u"
  then obtain a b x y where "join_lines ls = a @ l @ b" "l = x @ u @ y"
    using line_in_join [of l ls] by (auto simp: contains_iff)
  then have "join_lines ls = (a @ x) @ u @ (y @ b)" by simp
  then show ?thesis unfolding contains_iff by blast
qed

lemma set_insert_statements:
  "set (insert_statements ls i us) = set ls \<union> set us"
proof (induction us arbitrary: ls i)
  case Nil
  show ?case by simp
next
  case (Cons u us)
  have "set (take i ls) \<union> set (drop i ls) = set ls"
    using set_append [of "take i ls" "drop i ls"] by (simp only: append_take_drop_id)
  then have "set (take i ls @ u # drop i ls) = insert u (set ls)"
    by auto
  with Cons.IH [of "take i ls @ u # drop i ls" "Suc i"] show ?case by auto
qed

text \<open>After the statements that were missing are inserted, every statement occurs.\<close>

lemma patched_contains:
  assumes "CHR 0x0A \<notin> set u"
    and "u \<in> set missing \<or> contains c u"
  shows "contains (join_lines (insert_statements (split_lines c) i missing)) u"
proof -
  from assms(2) obtain l where "l \<in> set (split_lines c) \<union> set missing" "contains l u"
    using contains_in_line [OF _ assms(1)] contains_self by blast
  then show ?thesis
    by (intro contains_join [of l]) (simp_all add: set_insert_statements)
qed

subsection \<open>Running the pass again\<close>

lemma add_using_fixpoint:
  "add_using_to_file set_order st (p, us) = st \<longleftrightarrow>
     (case contents (files st p) of
        None \<Rightarrow> True
      | Some c \<Rightarrow> filter (\<lambda>u. \<not> contains c u) (set_order us) = [] \<or> \<not> writable (files st p))"
proof (cases "contents (files st p)")
  case None
  then show ?thesis by (simp add: add_using_to_file_def)
next
  case (Some c)
  show ?thesis
  proof (cases "filter (\<lambda>u. \<not> contains c u) (set_order us) = [] \<or> \<not> writable (files st p)")
    case True
    then show ?thesis using Some by (auto simp: add_using_to_file_def Let_def)
  next
    case False
    then have "writes (add_using_to_file set_order st (p, us)) \<noteq> writes st"
      using Some by (auto simp: add_using_to_file_def Let_def)
    then have "add_using_to_file set_order st (p, us) \<noteq> st" by auto
    with False Some show ?thesis by simp
  qed
qed

lemma add_using_twice:
  assumes v1: "\<forall>us. distinct us \<longrightarrow> distinct (order1 us) \<and> set (order1 us) = set us"
    and v2: "\<forall>us. distinct us \<longrightarrow> distinct (order2 us) \<and> set (order2 us) = set us"
    and d: "distinct us"
    and nl: "\<forall>u \<in> set us. CHR 0x0A \<notin> set u"
  shows "add_using_to_file order2 (add_using_to_file order1 st (p, us)) (p, us)
           = add_using_to_file order1 st (p, us)"
proof (cases "contents (files st p)")
  case None
  then show ?thesis by (simp add: add_using_to_file_unreadable)
next
  case (Some c)
  from v1 v2 d have s1: "set (order1 us) = set us" and s2: "set (order2 us) = set us" by auto
  let ?missing = "filter (\<lambda>u. \<not> contains c u) (order1 us)"
  show ?thesis
  proof (cases "?missing = [] \<or> \<not> writable (files st p)")
    case True
    then have first: "add_using_to_file order1 st (p, us) = st"
      using Some by (simp add: add_using_fixpoint)
    from True have "filter (\<lambda>u. \<not> contains c u) (order2 us) = [] \<or> \<not> writable (files st p)"
      using s1 s2 by (auto simp: filter_empty_conv)
    then have "add_using_to_file order2 st (p, us) = st"
      using Some by (simp add: add_using_fixpoint)
    with first show ?thesis by simp
  next
    case False
    define new_content where
      "new_content = join_lines (insert_statements (split_lines c)
                       (find_insert_index (split_lines c) 0 0) ?missing)"
    let ?st' = "st\<lparr> files := (files st)(p := DiskFile (Some new_content) True),
                     writes := writes st @ [(p, new_content)] \<rparr>"
    from False have first: "add_using_to_file order1 st (p, us) = ?st'"
      using add_using_to_file_missing [of st p c order1 us ?missing new_content] Some
      by (simp add: new_content_def)
    have c': "contents (files ?st' p) = Some new_content" by simp
    have "\<forall>u \<in> set (order2 us). contains new_content u"
    proof
      fix u assume "u \<in> set (order2 us)"
      with s2 have u: "u \<in> set us" by simp
      with nl have "CHR 0x0A \<notin> set u" by blast
      moreover from u s1 have "u \<in> set ?missing \<or> contains c u" by auto
      ultimately show "contains new_content u"
        unfolding new_content_def by (rule patched_contains)
    qed
    from add_using_to_file_present [of ?st' p new_content order2 us, OF c' this] first
    show ?thesis by simp
  qed
qed

lemma add_using_elsewhere:
  assumes "q \<noteq> p"
    and "add_using_to_file order2 st (p, us) = st"
  shows "add_using_to_file order2 (add_using_to_file order1 st (q, vs)) (p, us)
           = add_using_to_file order1 st (q, vs)"
proof -
  have "files (add_using_to_file order1 st (q, vs)) p = files st p"
    using add_using_other [of "(q, vs)" p order1 st] assms(1) by simp
  with assms(2) show ?thesis
    unfolding add_using_fixpoint by (simp split: option.splits)
qed

lemma foldl_add_using_settled:
  assumes v1: "\<forall>us. distinct us \<longrightarrow> distinct (order1 us) \<and> set (order1 us) = set us"
    and v2: "\<forall>us. distinct us \<longrightarrow> distinct (order2 us) \<and> set (order2 us) = set us"
  shows "distinct (map fst d) \<Longrightarrow>
         \<forall>e \<in> set d. distinct (snd e) \<and> (\<forall>u \<in> set (snd e). CHR 0x0A \<notin> set u) \<Longrightarrow>
         \<forall>e \<in> set d. add_using_to_file order2 (foldl (add_using_to_file order1) st d) e
                        = foldl (add_using_to_file order1) st d"
proof (induction d rule: rev_induct)
  case Nil
  show ?case by simp
next
  case (snoc e d)
  obtain p us where e: "e = (p, us)" by (cases e)
  let ?s = "foldl (add_using_to_file order1) st d"
  from snoc.prems have dd: "distinct (map fst d)" and pd: "p \<notin> fst ` set d"
    and ok: "\<forall>e \<in> set d. distinct (snd e) \<and> (\<forall>u \<in> set (snd e). CHR 0x0A \<notin> set u)"
    and du: "distinct us" and nu: "\<forall>u \<in> set us. CHR 0x0A \<notin> set u"
    unfolding e by auto
  note IH = snoc.IH [OF dd ok]
  show ?case
  proof
    fix x assume "x \<in> set (d @ [e])"
    then consider "x = e" | "x \<in> set d" by auto
    then show "add_using_to_file order2 (foldl (add_using_to_file order1) st (d @ [e])) x
                 = foldl (add_using_to_file order1) st (d @ [e])"
    proof cases
      case 1
      then show ?thesis
        unfolding e using add_using_twice [OF v1 v2 du nu, of ?s p] by simp
    next
      case 2
      obtain q vs where x: "x = (q, vs)" by (cases x)
      from 2 pd x have "p \<noteq> q" by force
      from 2 IH x have "add_using_to_file order2 ?s (q, vs) = ?s" by auto
      from add_using_elsewhere [OF \<open>p \<noteq> q\<close> this, of order1 us]
      show ?thesis unfolding e x by simp
    qed
  qed
qed

lemma foldl_identity:
  "\<forall>e \<in> set d. f s e = s \<Longrightarrow> foldl f s d = s"
  by (induction d) simp_all

subsection \<open>The dictionary of the files that need statements\<close>

lemma add_need_distinct_keys:
  "distinct (map fst d) \<Longrightarrow> distinct (map fst (add_need p u d))"
proof (induction p u d rule: add_need.induct)
  case (1 p u)
  show ?case by simp
next
  case (2 p u q us d)
  show ?case
  proof (cases "p = q")
    case True
    with "2.prems" show ?thesis by simp
  next
    case False
    have "q \<notin> fst ` set (add_need p u d)"
      using "2.prems" False by (simp add: add_need_keys)
    with False "2.prems" "2.IH" show ?thesis by simp
  qed
qed

lemma add_need_values:
  "\<forall>e \<in> set d. distinct (snd e) \<and> (\<forall>v \<in> set (snd e). P v) \<Longrightarrow> P u \<Longrightarrow>
     \<forall>e \<in> set (add_need p u d). distinct (snd e) \<and> (\<forall>v \<in> set (snd e). P v)"
  by (induction p u d rule: add_need.induct) auto

lemma files_needing_using_ok:
  assumes "\<forall>e \<in> set tbl. \<forall>u. f_add_using (snd e) = Some u \<longrightarrow> P u"
  shows "distinct (map fst d) \<Longrightarrow>
         \<forall>e \<in> set d. distinct (snd e) \<and> (\<forall>v \<in> set (snd e). P v) \<Longrightarrow>
         distinct (map fst (files_needing_using tbl fxs d)) \<and>
         (\<forall>e \<in> set (files_needing_using tbl fxs d). distinct (snd e) \<and> (\<forall>v \<in> set (snd e). P v))"
proof (induction fxs arbitrary: d)
  case Nil
  then show ?case by simp
next
  case (Cons f fxs)
  show ?case
  proof (cases "map_of tbl (a_fix_type f)")
    case None
    then show ?thesis using Cons by simp
  next
    case (Some info)
    then have mem: "(a_fix_type f, info) \<in> set tbl" by (rule map_of_SomeD)
    show ?thesis
    proof (cases "f_add_using info")
      case None
      then show ?thesis using Some Cons by simp
    next
      case (Some u)
      with mem assms have "P u" by force
      show ?thesis
      proof (cases "u = []")
        case True
        then show ?thesis using Some \<open>map_of tbl (a_fix_type f) = Some info\<close> Cons by simp
      next
        case False
        from Cons.IH [OF add_need_distinct_keys [OF Cons.prems(1)]
                         add_need_values [OF Cons.prems(2) \<open>P u\<close>], of "a_file f"]
        show ?thesis
          using Some \<open>map_of tbl (a_fix_type f) = Some info\<close> False by simp
      qed
    qed
  qed
qed

lemma fix_patterns_statements:
  "\<forall>e \<in> set fix_patterns. \<forall>u. f_add_using (snd e) = Some u \<longrightarrow> CHR 0x0A \<notin> set u"
  by (simp add: fix_patterns_def)

subsection \<open>What one call inserts\<close>

lemma lines_no_newline: "l \<in> set (split_lines s) \<Longrightarrow> CHR 0x0A \<notin> set l"
proof (induction s arbitrary: l)
  case Nil
  then show ?case by simp
next
  case (Cons c s)
  obtain m ms where sl: "split_lines s = m # ms"
    using split_lines_nonempty [of s] by (cases "split_lines s") auto
  show ?case
  proof (cases "c = CHR 0x0A")
    case True
    with Cons show ?thesis by auto
  next
    case False
    with Cons.prems sl consider "l = c # m" | "l \<in> set ms" by auto
    then show ?thesis
    proof cases
      case 1
      with False Cons.IH [of m] sl show ?thesis by simp
    next
      case 2
      with Cons.IH [of l] sl show ?thesis by simp
    qed
  qed
qed

lemma split_lines_append:
  "CHR 0x0A \<notin> set l \<Longrightarrow> split_lines (l @ CHR 0x0A # s) = l # split_lines s"
  by (induction l) (auto simp: split_lines_nonempty split: list.splits)

lemma split_lines_line: "CHR 0x0A \<notin> set l \<Longrightarrow> split_lines l = [l]"
  by (induction l) auto

lemma split_join:
  "ls \<noteq> [] \<Longrightarrow> \<forall>l \<in> set ls. CHR 0x0A \<notin> set l \<Longrightarrow> split_lines (join_lines ls) = ls"
proof (induction ls rule: join_lines.induct)
  case 1
  then show ?case by simp
next
  case (2 l)
  then show ?case by (simp add: split_lines_line)
next
  case (3 l m ls)
  then show ?case by (simp add: split_lines_append)
qed

lemma count_insert_statements:
  "count_list (insert_statements ls i us) u = count_list ls u + count_list us u"
proof (induction us arbitrary: ls i)
  case Nil
  show ?case by simp
next
  case (Cons v us)
  have "count_list (take i ls) u + count_list (drop i ls) u = count_list ls u"
    using count_list_append [of "take i ls" "drop i ls" u] by (simp only: append_take_drop_id)
  then have "count_list (take i ls @ v # drop i ls) u = count_list ls u + (if v = u then 1 else 0)"
    by simp
  with Cons.IH [of "take i ls @ v # drop i ls" "Suc i"] show ?case by simp
qed

lemma insert_statements_nonempty: "ls \<noteq> [] \<Longrightarrow> insert_statements ls i us \<noteq> []"
  by (induction us arbitrary: ls i) simp_all

lemma count_distinct_filter:
  "distinct xs \<Longrightarrow> count_list (filter P xs) u = (if u \<in> set xs \<and> P u then 1 else 0)"
  by (induction xs) auto

lemma add_using_counts:
  assumes v: "\<forall>us. distinct us \<longrightarrow> distinct (set_order us) \<and> set (set_order us) = set us"
    and d: "distinct us"
    and nl: "\<forall>u \<in> set us. CHR 0x0A \<notin> set u"
    and c: "contents (files st p) = Some c"
    and w: "writable (files st p)"
  shows "\<exists>c'. contents (files (add_using_to_file set_order st (p, us)) p) = Some c' \<and>
           (\<forall>u. count_list (split_lines c') u
                  = count_list (split_lines c) u + (if u \<in> set us \<and> \<not> contains c u then 1 else 0))"
proof -
  from v d have s: "set (set_order us) = set us" and ds: "distinct (set_order us)" by auto
  let ?missing = "filter (\<lambda>u. \<not> contains c u) (set_order us)"
  have cm: "count_list ?missing u = (if u \<in> set us \<and> \<not> contains c u then 1 else 0)" for u
    using count_distinct_filter [OF ds, of "\<lambda>u. \<not> contains c u" u] s by simp
  show ?thesis
  proof (cases "?missing = []")
    case True
    then have "add_using_to_file set_order st (p, us) = st"
      using c by (simp add: add_using_fixpoint)
    moreover have "(if u \<in> set us \<and> \<not> contains c u then 1 else 0) = (0::nat)" for u
      using cm [of u] True by simp
    ultimately show ?thesis using c by simp
  next
    case False
    define lines where "lines = insert_statements (split_lines c)
                                  (find_insert_index (split_lines c) 0 0) ?missing"
    have new: "contents (files (add_using_to_file set_order st (p, us)) p) = Some (join_lines lines)"
      using add_using_to_file_missing [of st p c set_order us ?missing "join_lines lines"] c w False
      by (simp add: lines_def)
    have "lines \<noteq> []"
      unfolding lines_def by (rule insert_statements_nonempty) (rule split_lines_nonempty)
    moreover have "\<forall>l \<in> set lines. CHR 0x0A \<notin> set l"
      unfolding lines_def set_insert_statements using lines_no_newline nl s by auto
    ultimately have "split_lines (join_lines lines) = lines" by (rule split_join)
    then have "count_list (split_lines (join_lines lines)) u
                 = count_list (split_lines c) u + (if u \<in> set us \<and> \<not> contains c u then 1 else 0)" for u
      using cm [of u] by (simp add: lines_def count_insert_statements)
    with new show ?thesis by blast
  qed
qed

lemma add_missing_twice:
  assumes v1: "\<forall>us. distinct us \<longrightarrow> distinct (order1 us) \<and> set (order1 us) = set us"
    and v2: "\<forall>us. distinct us \<longrightarrow> distinct (order2 us) \<and> set (order2 us) = set us"
  shows "add_missing_using_statements order2 (add_missing_using_statements order1 st)
           = add_missing_using_statements order1 st"
proof -
  let ?d = "files_needing_using fix_patterns (fixes_applied st) []"
  from files_needing_using_ok [OF fix_patterns_statements, of "[]" "fixes_applied st"]
  have dk: "distinct (map fst ?d)"
    and ok: "\<forall>e \<in> set ?d. distinct (snd e) \<and> (\<forall>u \<in> set (snd e). CHR 0x0A \<notin> set u)"
    by simp_all
  from foldl_add_using_settled [OF v1 v2 dk ok, of st]
  have "foldl (add_using_to_file order2) (foldl (add_using_to_file order1) st ?d) ?d
          = foldl (add_using_to_file order1) st ?d"
    by (rule foldl_identity)
  then show ?thesis by (simp add: add_missing_using_statements_def)
qed

text \<open>
  Claim C6. The pass that adds the using statements is idempotent, whatever the order in
  which the two runs iterate over the sets of statements. For one file: when every
  statement of the set occurs in the content, the call changes nothing; in general, on a
  file that can be read and written, each statement that does not occur gets exactly one
  new line and no other line is added, so a statement that occurs is not repeated. For
  the pass: a second run, and any number of further runs, leave the state of the first
  run as it is (the files, and no write is carried out).
\<close>

theorem using_injector_idempotent:
  assumes "\<forall>us. distinct us \<longrightarrow> distinct (order1 us) \<and> set (order1 us) = set us"
    and "\<forall>us. distinct us \<longrightarrow> distinct (order2 us) \<and> set (order2 us) = set us"
  shows "(distinct us \<and> contents (files st p) = Some c \<and> (\<forall>u \<in> set us. contains c u)
            \<longrightarrow> add_using_to_file order1 st (p, us) = st) \<and>
         (distinct us \<and> (\<forall>u \<in> set us. CHR 0x0A \<notin> set u) \<and>
          contents (files st p) = Some c \<and> writable (files st p)
            \<longrightarrow> (\<exists>c'. contents (files (add_using_to_file order1 st (p, us)) p) = Some c' \<and>
                   (\<forall>u. count_list (split_lines c') u
                          = count_list (split_lines c) u +
                            (if u \<in> set us \<and> \<not> contains c u then 1 else 0)))) \<and>
         add_missing_using_statements order2 (add_missing_using_statements order1 st)
           = add_missing_using_statements order1 st \<and>
         ((add_missing_using_statements order2) ^^ n) (add_missing_using_statements order1 st)
           = add_missing_using_statements order1 st"
proof (intro conjI impI)
  assume h: "distinct us \<and> contents (files st p) = Some c \<and> (\<forall>u \<in> set us. contains c u)"
  with assms(1) have "\<forall>u \<in> set (order1 us). contains c u" by auto
  with h show "add_using_to_file order1 st (p, us) = st"
    using add_using_to_file_present [of st p c order1 us] by simp
next
  assume "distinct us \<and> (\<forall>u \<in> set us. CHR 0x0A \<notin> set u) \<and>
          contents (files st p) = Some c \<and> writable (files st p)"
  then show "\<exists>c'. contents (files (add_using_to_file order1 st (p, us)) p) = Some c' \<and>
                   (\<forall>u. count_list (split_lines c') u
                          = count_list (split_lines c) u +
                            (if u \<in> set us \<and> \<not> contains c u then 1 else 0))"
    using add_using_counts [OF assms(1), of us st p c] by simp
next
  show "add_missing_using_statements order2 (add_missing_using_statements order1 st)
           = add_missing_using_statements order1 st"
    by (rule add_missing_twice [OF assms])
next
  show "((add_missing_using_statements order2) ^^ n) (add_missing_using_statements order1 st)
           = add_missing_using_statements order1 st"
    by (induction n) (simp_all add: add_missing_twice [OF assms])
qed

theorem using_injector_idempotent_witness:
  "add_missing_using_statements rev example_after_fix = example_after_pass \<and>
   contents (files example_after_pass ''Assets/Scripts/A.cs'') = Some example_patched \<and>
   contains example_patched ''using VRBoxingGame.Core;'' \<and>
   add_using_to_file rev example_after_pass
     (''Assets/Scripts/A.cs'', [''using VRBoxingGame.Core;'']) = example_after_pass \<and>
   add_missing_using_statements (\<lambda>us. us) example_after_pass = example_after_pass \<and>
   ((add_missing_using_statements (\<lambda>us. us)) ^^ 3) example_after_pass = example_after_pass"
proof -
  have v1: "\<forall>us::string list. distinct us \<longrightarrow> distinct (rev us) \<and> set (rev us) = set us"
    by simp
  have v2: "\<forall>us::string list. distinct us \<longrightarrow> distinct ((\<lambda>us. us) us) \<and> set ((\<lambda>us. us) us) = set us"
    by simp
  have first: "add_missing_using_statements rev example_after_fix = example_after_pass"
    by (rule example_add_using [OF v1])
  have c: "contents (files example_after_pass ''Assets/Scripts/A.cs'') = Some example_patched"
    by (simp add: example_after_pass_def)
  from using_injector_idempotent
         [OF v1 v2, where us = "[''using VRBoxingGame.Core;'']" and st = example_after_fix
            and p = "''Assets/Scripts/A.cs''" and c = example_fixed and n = 3]
  have runs: "add_missing_using_statements (\<lambda>us. us) example_after_pass = example_after_pass"
    "((add_missing_using_statements (\<lambda>us. us)) ^^ 3) example_after_pass = example_after_pass"
    unfolding first by blast+
  from using_injector_idempotent
         [OF v1 v2, where us = "[''using VRBoxingGame.Core;'']" and st = example_after_pass
            and p = "''Assets/Scripts/A.cs''" and c = example_patched and n = 0]
  have "add_using_to_file rev example_after_pass
          (''Assets/Scripts/A.cs'', [''using VRBoxingGame.Core;'']) = example_after_pass"
    using c example_patched_has by simp
  with first c example_patched_has runs show ?thesis by blast
qed

section \<open>Case: a lookup of a named type\<close>

subsection \<open>Texts that a pattern cannot match\<close>









lemma render_Copy: "render tm (map Copy s) = s"
  by (induction s) simp_all


subsection \<open>Neighbouring characters\<close>











subsection \<open>Characters\<close>






lemma accepts_space: "(\<And>c. is_space c \<Longrightarrow> P c) \<Longrightarrow> accepts_only ic Space P"
  by (simp add: accepts_only_def)


subsection \<open>The scanner on the line of a lookup\<close>





















subsection \<open>The first fix rule on the line of a lookup\<close>









subsection \<open>The other fix rules, and all of them on the rewritten file\<close>








subsection \<open>The passes\<close>


















end
